theory Spec2Isabelle
  imports Main
begin

section \<open>Strings\<close>

text \<open>
  A Python \<open>str\<close> is a sequence of code points. The model covers the code points below
  256, one \<^typ>\<open>char\<close> each, so \<^const>\<open>length\<close> is Python's \<open>len\<close>.
  Among these, \<open>str.isspace\<close>, \<open>str.strip\<close> and the pattern \<open>\s\<close> of \<open>re\<close> (on a
  \<open>str\<close> pattern) agree on the twelve characters of \<open>whitespace_chars\<close>, and
  \<open>str.splitlines\<close> breaks at the eight characters of \<open>linebreak_chars\<close> (with
  \<open>\r\n\<close> as one boundary).
\<close>

definition whitespace_chars :: "char list" where
  "whitespace_chars =
     [CHR 0x09, CHR 0x0A, CHR 0x0B, CHR 0x0C, CHR 0x0D,
      CHR 0x1C, CHR 0x1D, CHR 0x1E, CHR 0x1F, CHR 0x20, CHR 0x85, CHR 0xA0]"

definition is_space :: "char \<Rightarrow> bool" where
  "is_space c = (c \<in> set whitespace_chars)"

definition linebreak_chars :: "char list" where
  "linebreak_chars =
     [CHR 0x0A, CHR 0x0B, CHR 0x0C, CHR 0x0D, CHR 0x1C, CHR 0x1D, CHR 0x1E, CHR 0x85]"

definition is_linebreak :: "char \<Rightarrow> bool" where
  "is_linebreak c = (c \<in> set linebreak_chars)"

text \<open>\<open>s.strip()\<close>: leading and trailing whitespace removed.\<close>

definition strip :: "string \<Rightarrow> string" where
  "strip s = rev (dropWhile is_space (rev (dropWhile is_space s)))"

text \<open>\<open>s.startswith(p)\<close> and \<open>s.endswith(p)\<close>.\<close>

fun startswith :: "string \<Rightarrow> string \<Rightarrow> bool" where
  "startswith s [] = True"
| "startswith [] (p # ps) = False"
| "startswith (c # cs) (p # ps) = (c = p \<and> startswith cs ps)"

definition endswith :: "string \<Rightarrow> string \<Rightarrow> bool" where
  "endswith s p = startswith (rev s) (rev p)"

text \<open>\<open>sep.join(xs)\<close>.\<close>

fun join :: "string \<Rightarrow> string list \<Rightarrow> string" where
  "join sep [] = []"
| "join sep [x] = x"
| "join sep (x # y # ys) = x @ sep @ join sep (y # ys)"

text \<open>
  \<open>s.splitlines()\<close>: the text up to the next line boundary is one line, the boundary is
  dropped, and a boundary at the very end opens no further line.
\<close>

fun drop_linebreak :: "string \<Rightarrow> string" where
  "drop_linebreak [] = []"
| "drop_linebreak [c] = []"
| "drop_linebreak (c # d # cs) = (if c = CHR 0x0D \<and> d = CHR 0x0A then cs else d # cs)"

function splitlines :: "string \<Rightarrow> string list" where
  "splitlines [] = []"
| "splitlines (c # cs) =
     takeWhile (\<lambda>x. \<not> is_linebreak x) (c # cs)
       # splitlines (drop_linebreak (dropWhile (\<lambda>x. \<not> is_linebreak x) (c # cs)))"
  by pat_completeness auto

lemma length_drop_linebreak: "s \<noteq> [] \<Longrightarrow> length (drop_linebreak s) < length s"
  by (cases s rule: drop_linebreak.cases) auto

lemma length_drop_linebreak_le: "length (drop_linebreak s) \<le> length s"
  by (cases s rule: drop_linebreak.cases) auto

lemma splitlines_shorter:
  "length (drop_linebreak (dropWhile P (c # cs))) < Suc (length cs)"
proof (cases "P c")
  case True
  have "length (drop_linebreak (dropWhile P cs)) \<le> length (dropWhile P cs)"
    by (rule length_drop_linebreak_le)
  also have "\<dots> \<le> length cs"
    by (rule length_dropWhile_le)
  finally show ?thesis using True by simp
next
  case False
  then show ?thesis using length_drop_linebreak [of "c # cs"] by simp
qed

termination splitlines
proof (relation "measure length")
  show "wf (measure length)" by simp
next
  fix c :: char and cs :: string
  show "(drop_linebreak (dropWhile (\<lambda>x. \<not> is_linebreak x) (c # cs)), c # cs) \<in> measure length"
    using splitlines_shorter [of "\<lambda>x. \<not> is_linebreak x" c cs] by (simp del: dropWhile.simps)
qed

section \<open>Paths\<close>

text \<open>
  The functions of \<open>os.path\<close> (its POSIX flavour) that the program calls. \<open>cwd\<close> is the
  working directory of the process, which \<open>os.path.abspath\<close> reads.
\<close>

type_synonym path = string

definition path_join :: "path \<Rightarrow> path \<Rightarrow> path" where
  "path_join a b =
     (if startswith b ''/'' then b
      else if a = [] \<or> endswith a ''/'' then a @ b
      else a @ ''/'' @ b)"

definition dirname :: "path \<Rightarrow> path" where
  "dirname p =
     (let head = rev (dropWhile (\<lambda>c. c \<noteq> CHR ''/'') (rev p)) in
      if head \<noteq> [] \<and> head \<noteq> replicate (length head) CHR ''/''
      then rev (dropWhile (\<lambda>c. c = CHR ''/'') (rev head))
      else head)"

text \<open>\<open>s.split('/')\<close>.\<close>

fun split_slash :: "string \<Rightarrow> string list" where
  "split_slash [] = [[]]"
| "split_slash (c # cs) =
     (if c = CHR ''/'' then [] # split_slash cs
      else (case split_slash cs of
              [] \<Rightarrow> [[c]]
            | w # ws \<Rightarrow> (c # w) # ws))"

text \<open>The loop of \<open>normpath\<close> over the components, \<open>new_comps\<close> as accumulator.\<close>

fun norm_comps :: "nat \<Rightarrow> string list \<Rightarrow> string list \<Rightarrow> string list" where
  "norm_comps initial_slashes new_comps [] = new_comps"
| "norm_comps initial_slashes new_comps (cmp # comps) =
     (if cmp = [] \<or> cmp = ''.'' then norm_comps initial_slashes new_comps comps
      else if cmp \<noteq> ''..'' \<or> (initial_slashes = 0 \<and> new_comps = [])
                \<or> (new_comps \<noteq> [] \<and> last new_comps = ''..'')
      then norm_comps initial_slashes (new_comps @ [cmp]) comps
      else if new_comps \<noteq> [] then norm_comps initial_slashes (butlast new_comps) comps
      else norm_comps initial_slashes new_comps comps)"

definition normpath :: "path \<Rightarrow> path" where
  "normpath p =
     (if p = [] then ''.''
      else
        let initial_slashes =
              (if startswith p ''/''
               then (if startswith p ''//'' \<and> \<not> startswith p ''///'' then 2 else 1)
               else 0);
            r = replicate initial_slashes CHR ''/''
                  @ join ''/'' (norm_comps initial_slashes [] (split_slash p))
        in if r = [] then ''.'' else r)"

definition abspath :: "path \<Rightarrow> path \<Rightarrow> path" where
  "abspath cwd p = normpath (if startswith p ''/'' then p else path_join cwd p)"

section \<open>The file system\<close>

text \<open>
  The file system as \<open>open(p, 'r')\<close> and \<open>read()\<close> see it, on Linux with UTF-8 file names and
  no symbolic links. It lists nodes by their absolute path, written with single slashes:
  a regular file with its text (after the translation of line ends that text mode does),
  a directory, or a node whose open or read fails for a reason of its own (no permission,
  bytes that do not decode, a device). A path that is not listed is a directory when a
  listed path lies below it, and does not exist otherwise; \<open>/\<close> is always a directory.
\<close>

datatype node = File string | Directory | Special

type_synonym filesystem = "(path \<times> node) list"

text \<open>
  The exceptions that opening and reading a header can raise. \<open>OSError\<close> stands for the
  subclasses of it other than the three named ones (a name that is too long, no
  permission), \<open>OtherError\<close> for what reading a \<open>Special\<close> node raises.
\<close>

datatype exn =
    FileNotFoundError
  | NotADirectoryError
  | IsADirectoryError
  | OSError
  | ValueError
  | OtherError

text \<open>The length in bytes of a name in UTF-8: two bytes for a code point from 128 on.\<close>

definition utf8_length :: "string \<Rightarrow> nat" where
  "utf8_length s = sum_list (map (\<lambda>c. if of_char c < (128::nat) then 1 else 2) s)"

definition node_at :: "filesystem \<Rightarrow> path \<Rightarrow> node option" where
  "node_at fs q =
     (if q = ''/'' then Some Directory
      else (case map_of fs q of
              Some n \<Rightarrow> Some n
            | None \<Rightarrow>
                if list_ex (\<lambda>k. startswith k (q @ ''/'')) (map fst fs) then Some Directory
                else None))"

text \<open>
  The directories on the way to a path: its proper prefixes that end before a slash, the
  shortest first (\<open>/p\<close> and \<open>/p/b.h\<close> for \<open>/p/b.h/x.h\<close>).
\<close>

fun ancestors_from :: "string \<Rightarrow> string \<Rightarrow> path list" where
  "ancestors_from pre [] = []"
| "ancestors_from pre (c # cs) =
     (if c = CHR ''/'' \<and> pre \<noteq> [] then pre # ancestors_from (pre @ [c]) cs
      else ancestors_from (pre @ [c]) cs)"

definition last_component :: "path \<Rightarrow> string" where
  "last_component p = rev (takeWhile (\<lambda>c. c \<noteq> CHR ''/'') (rev p))"

text \<open>
  The walk of the kernel along those directories: a name of more than 255 bytes is
  refused (\<open>ENAMETOOLONG\<close>), a name that is not there ends the walk with \<open>ENOENT\<close>, one that
  is there and is no directory with \<open>ENOTDIR\<close>.
\<close>

fun walk :: "filesystem \<Rightarrow> path list \<Rightarrow> exn option" where
  "walk fs [] = None"
| "walk fs (a # as) =
     (if 255 < utf8_length (last_component a) then Some OSError
      else (case node_at fs a of
              None \<Rightarrow> Some FileNotFoundError
            | Some n \<Rightarrow> if n = Directory then walk fs as else Some NotADirectoryError))"

text \<open>
  \<open>open(p, 'r')\<close> followed by \<open>read()\<close>, for an absolute path as \<open>os.path.abspath\<close> returns
  it (no \<open>.\<close>, \<open>..\<close> or empty component; two leading slashes, which \<open>normpath\<close> keeps, name
  the root as one does): the text of the file, or the exception. Python refuses a NUL in
  the path before it asks the kernel, and the kernel a path of more than 4095 bytes.
\<close>

definition open_header :: "filesystem \<Rightarrow> path \<Rightarrow> exn + string" where
  "open_header fs p =
     (if CHR 0x00 \<in> set p then Inl ValueError
      else if 4095 < utf8_length p then Inl OSError
      else
        (let q = (if startswith p ''//'' \<and> \<not> startswith p ''///'' then tl p else p) in
         case walk fs (ancestors_from [] q) of
           Some e \<Rightarrow> Inl e
         | None \<Rightarrow>
             if 255 < utf8_length (last_component q) then Inl OSError
             else (case node_at fs q of
                     None \<Rightarrow> Inl FileNotFoundError
                   | Some n \<Rightarrow>
                       (case n of
                          File content \<Rightarrow> Inr content
                        | Directory \<Rightarrow> Inl IsADirectoryError
                        | Special \<Rightarrow> Inl OtherError))))"

text \<open>
  The paths under which a file of the file system can be opened: each listed path and the
  same with a second leading slash, when opening it gives a text.
\<close>

definition readable_paths :: "filesystem \<Rightarrow> path list" where
  "readable_paths fs =
     filter (\<lambda>p. case open_header fs p of Inl e \<Rightarrow> False | Inr content \<Rightarrow> True)
       (map fst fs @ map ((#) CHR ''/'') (map fst fs))"

lemma node_at_File: "node_at fs q = Some (File content) \<Longrightarrow> q \<in> fst ` set fs"
proof -
  assume "node_at fs q = Some (File content)"
  then have "map_of fs q = Some (File content)"
    by (auto simp: node_at_def split: if_splits option.splits)
  then have "(q, File content) \<in> set fs" by (rule map_of_SomeD)
  then show ?thesis by force
qed

lemma open_header_readable:
  assumes "open_header fs p = Inr content"
  shows "p \<in> set (readable_paths fs)"
proof -
  define q where "q = (if startswith p ''//'' \<and> \<not> startswith p ''///'' then tl p else p)"
  have "node_at fs q = Some (File content)"
    using assms unfolding open_header_def Let_def q_def [symmetric]
    by (simp split: if_splits option.splits node.splits)
  then have k: "q \<in> fst ` set fs" by (rule node_at_File)
  have "p \<in> set (map fst fs @ map ((#) CHR ''/'') (map fst fs))"
  proof (cases "startswith p ''//'' \<and> \<not> startswith p ''///''")
    case True
    then obtain r where r: "p = CHR ''/'' # r" by (cases p) simp_all
    have "q = tl p" using True unfolding q_def by (rule if_P)
    then have "q = r" using r by simp
    then have "p \<in> (#) CHR ''/'' ` fst ` set fs" using k r by simp
    then show ?thesis by (simp add: image_image)
  next
    case False
    then have "q = p" unfolding q_def by (rule if_not_P)
    then show ?thesis using k by simp
  qed
  then show ?thesis using assms by (simp add: readable_paths_def)
qed

section \<open>Header Resolver\<close>

text \<open>
  What the program does besides returning: the two messages of \<open>recursively_inline\<close>, the
  message of \<open>process_file\<close> at a marked include, and each successful read of a header.
\<close>

datatype event =
    Opened path
  | HeaderNotFound path
  | NestedHeader string
  | Inlining string string

text \<open>
  \<open>re.search(r'#include "([^"]+)"', s)\<close> tried at the start of \<open>s\<close> only: the name is the
  longest run of characters other than the double quote, it is not empty and a double
  quote follows it.
\<close>

definition match_here :: "string \<Rightarrow> string option" where
  "match_here s =
     (if startswith s (''#include '' @ [CHR 0x22])
      then (let after = drop 10 s;
                name = takeWhile (\<lambda>c. c \<noteq> CHR 0x22) after;
                rest = dropWhile (\<lambda>c. c \<noteq> CHR 0x22) after
            in if name \<noteq> [] \<and> rest \<noteq> [] then Some name else None)
      else None)"

text \<open>
  \<open>re.search(r'^\s*#include "([^"]+)"', line)\<close>, the test of \<open>recursively_inline\<close>: the
  pattern is anchored at the start of the line and skips the leading whitespace.
\<close>

definition match_include :: "string \<Rightarrow> string option" where
  "match_include line = match_here (dropWhile is_space line)"

text \<open>
  \<open>re.search(r'#include "([^"]+)"', s)\<close>, the test of \<open>process_file\<close>: not anchored, so
  the leftmost position where the pattern matches wins.
\<close>

fun search_include :: "string \<Rightarrow> string option" where
  "search_include [] = None"
| "search_include (c # cs) =
     (case match_here (c # cs) of
        Some name \<Rightarrow> Some name
      | None \<Rightarrow> search_include cs)"

text \<open>
  \<open>recursively_inline(header_path, seen_files)\<close>. The set \<open>seen_files\<close> is mutated in
  place by the source and shared by the whole call tree; here it is passed in and
  returned. A call either returns (\<open>Inr\<close>: the text, the set afterwards and the events in
  the order they happen) or raises (\<open>Inl\<close>: the exception and the events until then). Only
  \<open>FileNotFoundError\<close> is caught; every other exception of the read leaves the function and
  all its callers. \<open>inline_lines\<close> is the \<open>for\<close> loop over the lines of one header, with
  \<open>processed_lines\<close> as it stands before the remaining lines.
\<close>

function recursively_inline ::
    "filesystem \<Rightarrow> path \<Rightarrow> path \<Rightarrow> path set
       \<Rightarrow> exn \<times> event list + string \<times> path set \<times> event list"
  and inline_lines ::
    "filesystem \<Rightarrow> path \<Rightarrow> path \<Rightarrow> string list \<Rightarrow> string list \<Rightarrow> path set
       \<Rightarrow> exn \<times> event list + string list \<times> path set \<times> event list"
where
  "recursively_inline fs cwd header_path seen_files =
     (let abs_header_path = abspath cwd header_path in
      if abs_header_path \<in> seen_files then Inr ([], seen_files, [])
      else
        (case open_header fs abs_header_path of
           Inl e \<Rightarrow>
             if e = FileNotFoundError
             then Inr ([], insert abs_header_path seen_files, [HeaderNotFound header_path])
             else Inl (e, [])
         | Inr content \<Rightarrow>
             (case inline_lines fs cwd (dirname abs_header_path) (splitlines content) []
                     (insert abs_header_path seen_files) of
                Inl (e, evs) \<Rightarrow> Inl (e, Opened abs_header_path # evs)
              | Inr (processed_lines, seen', evs) \<Rightarrow>
                  Inr (join [CHR 0x0A] processed_lines, seen', Opened abs_header_path # evs))))"
| "inline_lines fs cwd header_dir [] processed_lines seen_files =
     Inr (processed_lines, seen_files, [])"
| "inline_lines fs cwd header_dir (line # rest) processed_lines seen_files =
     (case match_include line of
        Some included_header_name \<Rightarrow>
          (case recursively_inline fs cwd (path_join header_dir included_header_name)
                  seen_files of
             Inl (e, evs1) \<Rightarrow> Inl (e, NestedHeader included_header_name # evs1)
           | Inr (inlined_content, seen1, evs1) \<Rightarrow>
               (case inline_lines fs cwd header_dir rest
                       (processed_lines @ [inlined_content]) seen1 of
                  Inl (e, evs2) \<Rightarrow> Inl (e, NestedHeader included_header_name # evs1 @ evs2)
                | Inr (out, seen2, evs2) \<Rightarrow>
                    Inr (out, seen2, NestedHeader included_header_name # evs1 @ evs2)))
      | None \<Rightarrow>
          (if strip line \<noteq> ''#pragma once''
           then inline_lines fs cwd header_dir rest (processed_lines @ [line]) seen_files
           else inline_lines fs cwd header_dir rest processed_lines seen_files))"
  by pat_completeness auto


text \<open>
  The recursive call of the loop after a nested header is made on the set that the nested
  call returns. On every terminating call that returns, that set contains the one passed
  in, which is what the termination proof needs: a header that is read was not in the set
  and is in it from then on, so the number of readable paths not yet seen goes down at
  every read.
\<close>

lemma seen_mono_dom:
  "recursively_inline_inline_lines_dom (Inl (fs, cwd, hp, seen)) \<Longrightarrow>
     recursively_inline fs cwd hp seen = Inr (t, seen', evs) \<Longrightarrow> seen \<subseteq> seen'"
  "recursively_inline_inline_lines_dom (Inr (fs, cwd, dir, ls, acc, seen)) \<Longrightarrow>
     inline_lines fs cwd dir ls acc seen = Inr (out, seen', evs') \<Longrightarrow> seen \<subseteq> seen'"
proof (induction fs cwd hp seen and fs cwd dir ls acc seen
    arbitrary: t seen' evs and out seen' evs'
    rule: recursively_inline_inline_lines.pinduct)
  case (1 fs cwd header_path seen_files)
  let ?a = "abspath cwd header_path"
  show ?case
  proof (cases "?a \<in> seen_files")
    case True
    then show ?thesis using "1.hyps" "1.prems" by (simp add: recursively_inline.psimps)
  next
    case False
    show ?thesis
    proof (cases "open_header fs ?a")
      case (Inl e)
      then show ?thesis using False "1.hyps" "1.prems"
        by (auto simp: recursively_inline.psimps split: if_splits)
    next
      case (Inr content)
      obtain out s1 e1 where r:
        "inline_lines fs cwd (dirname ?a) (splitlines content) [] (insert ?a seen_files)
           = Inr (out, s1, e1)" and s: "seen' = s1"
        using False Inr "1.hyps" "1.prems"
        by (auto simp: recursively_inline.psimps Let_def split: sum.splits prod.splits)
      have "insert ?a seen_files \<subseteq> s1"
        using "1.IH" [OF refl False Inr r] .
      then show ?thesis using s by auto
    qed
  qed
next
  case (2 fs cwd header_dir processed_lines seen_files)
  then show ?case by (simp add: inline_lines.psimps)
next
  case (3 fs cwd header_dir line rest processed_lines seen_files)
  show ?case
  proof (cases "match_include line")
    case None
    show ?thesis
    proof (cases "strip line = ''#pragma once''")
      case True
      have "inline_lines fs cwd header_dir rest processed_lines seen_files = Inr (out, seen', evs')"
        using "3.prems" "3.hyps" None True by (simp add: inline_lines.psimps)
      then show ?thesis using "3.IH"(2) [OF None] True by simp
    next
      case False
      have "inline_lines fs cwd header_dir rest (processed_lines @ [line]) seen_files
              = Inr (out, seen', evs')"
        using "3.prems" "3.hyps" None False by (simp add: inline_lines.psimps)
      then show ?thesis using "3.IH"(1) [OF None False] by simp
    qed
  next
    case (Some name)
    obtain t s1 e1 e2 where r:
      "recursively_inline fs cwd (path_join header_dir name) seen_files = Inr (t, s1, e1)"
      and q: "inline_lines fs cwd header_dir rest (processed_lines @ [t]) s1 = Inr (out, seen', e2)"
      using "3.prems" "3.hyps" Some
      by (auto simp: inline_lines.psimps split: sum.splits prod.splits)
    have a: "seen_files \<subseteq> s1" using "3.IH"(3) [OF Some r] .
    have b: "s1 \<subseteq> seen'"
      using "3.IH"(4) [OF Some r refl refl q] .
    show ?thesis using a b by auto
  qed
qed

lemma unseen_insert:
  assumes "open_header fs a = Inr c" and "a \<notin> seen"
  shows "card (set (readable_paths fs) - insert a seen) < card (set (readable_paths fs) - seen)"
proof (rule psubset_card_mono)
  show "finite (set (readable_paths fs) - seen)" by simp
  have "a \<in> set (readable_paths fs)" using assms(1) by (rule open_header_readable)
  then show "set (readable_paths fs) - insert a seen \<subset> set (readable_paths fs) - seen"
    using assms(2) by auto
qed

lemma unseen_mono:
  "seen \<subseteq> seen' \<Longrightarrow>
     card (set (readable_paths fs) - seen') \<le> card (set (readable_paths fs) - seen)"
  by (rule card_mono) auto

text \<open>
  Every chain of nested calls is finite: each call is in the accessible part of the call
  relation. The measure is the number of readable paths of the file system that are not
  yet in the set, then the lines left in the loop.
\<close>

lemma inline_total: "All recursively_inline_inline_lines_dom"
proof (relation "inv_image (less_than <*lex*> less_than)
      (\<lambda>x. case x of
          Inl (fs, cwd, hp, seen) \<Rightarrow> (card (set (readable_paths fs) - seen), 0)
        | Inr (fs, cwd, dir, ls, acc, seen) \<Rightarrow>
            (card (set (readable_paths fs) - seen), Suc (length ls)))",
    goal_cases)
  case 1
  show ?case by (intro wf_inv_image wf_lex_prod wf_less_than)
next
  case (2 fs cwd header_path seen_files x x2)
  then show ?case using unseen_insert [of fs "abspath cwd header_path" x2 seen_files] by simp
next
  case 3
  then show ?case by simp
next
  case 4
  then show ?case by simp
next
  case 5
  then show ?case by simp
next
  case (6 fs cwd header_dir line rest processed_lines seen_files x2 b x y xa ya)
  have "recursively_inline fs cwd (path_join header_dir x2) seen_files = Inr (x, xa, ya)"
    using 6(2,3,4) by simp
  then have "seen_files \<subseteq> xa"
    using seen_mono_dom(1) [OF 6(5)] by blast
  then show ?case using unseen_mono [of seen_files xa fs] by auto
qed

termination recursively_inline
  by (rule inline_total)


section \<open>Content Transformer\<close>

text \<open>
  \<open>strip_comments(content)\<close>, two substitutions. The first is
  \<open>re.sub(r'/\*.*?\*/', '', content, flags=re.DOTALL)\<close>: from left to right, each
  \<open>/*\<close> that has a \<open>*/\<close> after it is removed up to the nearest such \<open>*/\<close>, and the
  scan goes on behind it. \<open>find_close\<close> gives the text behind the nearest \<open>*/\<close>.
\<close>

fun find_close :: "string \<Rightarrow> string option" where
  "find_close [] = None"
| "find_close [c] = None"
| "find_close (c # d # cs) =
     (if c = CHR ''*'' \<and> d = CHR ''/'' then Some cs else find_close (d # cs))"

lemma find_close_shorter: "find_close s = Some r \<Longrightarrow> length r < length s"
  by (induction s arbitrary: r rule: find_close.induct) (auto split: if_splits)

function strip_block_comments :: "string \<Rightarrow> string" where
  "strip_block_comments [] = []"
| "strip_block_comments [c] = [c]"
| "strip_block_comments (c # d # cs) =
     (if c = CHR ''/'' \<and> d = CHR ''*''
      then (case find_close cs of
              Some r \<Rightarrow> strip_block_comments r
            | None \<Rightarrow> c # strip_block_comments (d # cs))
      else c # strip_block_comments (d # cs))"
  by pat_completeness auto

termination strip_block_comments
proof (relation "measure length", goal_cases)
  case 1
  show ?case by simp
next
  case 2
  then show ?case by simp
next
  case 3
  from find_close_shorter [OF 3(2)] show ?case by simp
next
  case 4
  then show ?case by simp
qed

text \<open>
  The second is \<open>re.sub(r'//.*', '', content)\<close>: each \<open>//\<close> is removed with the text up
  to the next \<open>\n\<close>, the only character that \<open>.\<close> does not match.
\<close>

function strip_line_comments :: "string \<Rightarrow> string" where
  "strip_line_comments [] = []"
| "strip_line_comments [c] = [c]"
| "strip_line_comments (c # d # cs) =
     (if c = CHR ''/'' \<and> d = CHR ''/''
      then strip_line_comments (dropWhile (\<lambda>x. x \<noteq> CHR 0x0A) cs)
      else c # strip_line_comments (d # cs))"
  by pat_completeness auto

termination strip_line_comments
proof (relation "measure length", goal_cases)
  case 1
  show ?case by simp
next
  case (2 c d cs)
  have "length (dropWhile (\<lambda>x. x \<noteq> CHR 0x0A) cs) \<le> length cs"
    by (rule length_dropWhile_le)
  then show ?case by simp
next
  case 3
  then show ?case by simp
qed

definition strip_comments :: "string \<Rightarrow> string" where
  "strip_comments content = strip_line_comments (strip_block_comments content)"

text \<open>
  \<open>minify_cpp_line(line)\<close>, two substitutions again. \<open>re.sub(r'\s+', ' ', line)\<close> puts
  one space for every maximal run of whitespace.
\<close>

function collapse_whitespace :: "string \<Rightarrow> string" where
  "collapse_whitespace [] = []"
| "collapse_whitespace (c # cs) =
     (if is_space c then CHR 0x20 # collapse_whitespace (dropWhile is_space cs)
      else c # collapse_whitespace cs)"
  by pat_completeness auto

termination collapse_whitespace
proof (relation "measure length", goal_cases)
  case 1
  show ?case by simp
next
  case (2 c cs)
  have "length (dropWhile is_space cs) \<le> length cs"
    by (rule length_dropWhile_le)
  then show ?case by simp
next
  case 3
  then show ?case by simp
qed

text \<open>
  \<open>re.sub(r'\s*([;{}(),<>=\[\]])\s*', r'\1', minified)\<close>: the pattern matches at a position
  when the whitespace from there on (possibly none) is followed by one of the thirteen
  characters; the match is replaced by that character and takes the whitespace behind it
  too. Where it does not match, one character is copied and the scan moves on.
\<close>

definition punctuation_chars :: "char list" where
  "punctuation_chars = '';{}(),<>=[]''"

definition is_punctuation :: "char \<Rightarrow> bool" where
  "is_punctuation c = (c \<in> set punctuation_chars)"

function tighten_punctuation :: "string \<Rightarrow> string" where
  "tighten_punctuation [] = []"
| "tighten_punctuation (c # cs) =
     (case dropWhile is_space (c # cs) of
        [] \<Rightarrow> c # tighten_punctuation cs
      | p # r \<Rightarrow>
          if is_punctuation p then p # tighten_punctuation (dropWhile is_space r)
          else c # tighten_punctuation cs)"
  by pat_completeness auto

lemma dropWhile_tail_shorter:
  assumes "dropWhile P xs = p # r"
  shows "length (dropWhile Q r) < length xs"
proof -
  have "length (dropWhile Q r) \<le> length r"
    by (rule length_dropWhile_le)
  also have "\<dots> < length (dropWhile P xs)"
    using assms by simp
  also have "\<dots> \<le> length xs"
    by (rule length_dropWhile_le)
  finally show ?thesis .
qed

termination tighten_punctuation
proof (relation "measure length", goal_cases)
  case 1
  show ?case by simp
next
  case 2
  then show ?case by simp
next
  case 3
  from dropWhile_tail_shorter [OF 3(1)] show ?case by (simp del: dropWhile.simps)
next
  case 4
  then show ?case by simp
qed

definition minify_cpp_line :: "string \<Rightarrow> string" where
  "minify_cpp_line line = tighten_punctuation (collapse_whitespace line)"

text \<open>
  The loop of \<open>process_file\<close> that sorts the lines of the stripped text into
  \<open>directives\<close> and \<open>code_lines\<close>; both lists are passed as they stand before the
  remaining lines.
\<close>

fun classify_lines :: "string list \<Rightarrow> string list \<Rightarrow> string list \<Rightarrow> string list \<times> string list" where
  "classify_lines [] directives code_lines = (directives, code_lines)"
| "classify_lines (ln # lns) directives code_lines =
     (let stripped_ln = strip ln in
      if stripped_ln = [] then classify_lines lns directives code_lines
      else if startswith stripped_ln ''#''
      then classify_lines lns (directives @ [stripped_ln]) code_lines
      else classify_lines lns directives (code_lines @ [stripped_ln]))"

text \<open>
  The loop of the \<open>multiline\<close> style over \<open>minified_code\<close>, on the pair
  \<open>(wrapped_code, current_line)\<close>, and the statement after it that appends a last line
  that is not empty. \<open>max_chars\<close> comes from the configuration and is any integer.
\<close>

fun wrap_loop :: "int \<Rightarrow> string list \<Rightarrow> string \<Rightarrow> string \<Rightarrow> string \<times> string" where
  "wrap_loop max_chars [] wrapped_code current_line = (wrapped_code, current_line)"
| "wrap_loop max_chars (part # parts) wrapped_code current_line =
     (if current_line = [] then wrap_loop max_chars parts wrapped_code part
      else if int (length current_line) + int (length part) + 1 \<le> max_chars
      then wrap_loop max_chars parts wrapped_code (current_line @ '' '' @ part)
      else wrap_loop max_chars parts (wrapped_code @ current_line @ [CHR 0x0A]) part)"

definition wrap_code :: "int \<Rightarrow> string list \<Rightarrow> string" where
  "wrap_code max_chars minified_code =
     (case wrap_loop max_chars minified_code [] [] of
        (wrapped_code, current_line) \<Rightarrow>
          if current_line \<noteq> [] then wrapped_code @ current_line else wrapped_code)"

text \<open>
  \<open>final_content\<close> of \<open>process_file\<close> for one marked include, from the flattened text: the
  directives, then the code in the configured style. The style is the string of the
  configuration; every string other than \<open>single_line\<close> and \<open>multiline\<close> takes the
  last branch.
\<close>

definition render_code :: "string \<Rightarrow> int \<Rightarrow> string list \<Rightarrow> string" where
  "render_code minify_style max_chars code_lines =
     (if minify_style = ''single_line'' then join '' '' (map minify_cpp_line code_lines)
      else if minify_style = ''multiline''
      then wrap_code max_chars (map minify_cpp_line code_lines)
      else join [CHR 0x0A] code_lines)"

definition final_content :: "string \<Rightarrow> int \<Rightarrow> string \<Rightarrow> string" where
  "final_content minify_style max_chars flattened_content =
     (case classify_lines (splitlines (strip_comments flattened_content)) [] [] of
        (directives, code_lines) \<Rightarrow>
          if code_lines \<noteq> []
          then join [CHR 0x0A] directives @ [CHR 0x0A]
                 @ render_code minify_style max_chars code_lines
          else join [CHR 0x0A] directives)"

section \<open>The root file\<close>

record config =
  output_dir :: string
  minify_style :: string
  multiline_max_chars :: int

definition start_marker :: "string \<Rightarrow> string" where
  "start_marker header_name =
     ''// --- Start of inlined file: '' @ header_name @ '' ---'' @ [CHR 0x0A]"

definition end_marker :: "string \<Rightarrow> string" where
  "end_marker header_name =
     ''// --- End of inlined file: '' @ header_name @ '' ---'' @ [CHR 0x0A]"

text \<open>
  The body of the loop of \<open>process_file\<close> for one line of the root file: what it writes
  to the output file and the events (\<open>Inr\<close>), or the exception that leaves
  \<open>recursively_inline\<close> and the events until then (\<open>Inl\<close>; nothing is written for the
  line). \<open>seen_files\<close> starts empty at every marked include.
\<close>

definition process_line ::
    "filesystem \<Rightarrow> path \<Rightarrow> path \<Rightarrow> config \<Rightarrow> string
       \<Rightarrow> exn \<times> event list + string \<times> event list" where
  "process_line fs cwd source_directory cfg line =
     (let stripped_line = strip line in
      if startswith stripped_line (''#include '' @ [CHR 0x22]) \<and> endswith stripped_line ''//@''
      then (case search_include stripped_line of
              None \<Rightarrow> Inr (line, [])
            | Some header_name \<Rightarrow>
                (case recursively_inline fs cwd (path_join source_directory header_name) {} of
                   Inl (e, evs) \<Rightarrow> Inl (e, Inlining header_name (minify_style cfg) # evs)
                 | Inr (flattened_content, seen_files, evs) \<Rightarrow>
                     Inr (start_marker header_name
                            @ strip (final_content (minify_style cfg) (multiline_max_chars cfg)
                                       flattened_content) @ [CHR 0x0A]
                            @ end_marker header_name,
                          Inlining header_name (minify_style cfg) # evs)))
      else Inr (line, []))"

text \<open>
  Iterating over the open root file gives its lines with the \<open>\n\<close> that ends each one.
\<close>

function file_lines :: "string \<Rightarrow> string list" where
  "file_lines [] = []"
| "file_lines (c # cs) =
     (case dropWhile (\<lambda>x. x \<noteq> CHR 0x0A) (c # cs) of
        [] \<Rightarrow> [c # cs]
      | n # r \<Rightarrow> (takeWhile (\<lambda>x. x \<noteq> CHR 0x0A) (c # cs) @ [n]) # file_lines r)"
  by pat_completeness auto

termination file_lines
proof (relation "measure length", goal_cases)
  case 1
  show ?case by simp
next
  case 2
  from dropWhile_tail_shorter [OF 2(1), of "\<lambda>x. False"] show ?case
    by (simp del: dropWhile.simps)
qed

text \<open>
  The loop over the lines of the root file: the text written, the events, and the
  exception that ended the loop, if one did. What was written before it stays written.
\<close>

fun process_lines ::
    "filesystem \<Rightarrow> path \<Rightarrow> path \<Rightarrow> config \<Rightarrow> string list
       \<Rightarrow> string \<times> event list \<times> exn option" where
  "process_lines fs cwd source_directory cfg [] = ([], [], None)"
| "process_lines fs cwd source_directory cfg (line # rest) =
     (case process_line fs cwd source_directory cfg line of
        Inl (e, evs) \<Rightarrow> ([], evs, Some e)
      | Inr (written, evs) \<Rightarrow>
          (case process_lines fs cwd source_directory cfg rest of
             (written', evs', raised) \<Rightarrow> (written @ written', evs @ evs', raised)))"

text \<open>
  \<open>process_file(input_filepath, config)\<close>: the text written to the output file, the events
  and how the run ends. A root file that is not found and any other exception end the
  process with status 1, each with its message. The root path is opened in its normalized
  form; creating the output directory and opening the output file are taken to succeed,
  and the output file to be none of the files that are read.
\<close>

datatype ending = Completed | InputFileNotFound | UnexpectedError exn

definition process_file ::
    "filesystem \<Rightarrow> path \<Rightarrow> path \<Rightarrow> config \<Rightarrow> string \<times> event list \<times> ending" where
  "process_file fs cwd input_filepath cfg =
     (let source_directory = dirname (abspath cwd input_filepath) in
      case open_header fs (abspath cwd input_filepath) of
        Inl e \<Rightarrow>
          if e = FileNotFoundError then ([], [], InputFileNotFound)
          else ([], [], UnexpectedError e)
      | Inr content \<Rightarrow>
          (case process_lines fs cwd source_directory cfg (file_lines content) of
             (written, evs, raised) \<Rightarrow>
               (written, evs,
                case raised of None \<Rightarrow> Completed | Some e \<Rightarrow> UnexpectedError e)))"


section \<open>Traces and example inputs\<close>

text \<open>The headers read in a run, in the order they are read.\<close>

fun opened :: "event list \<Rightarrow> path list" where
  "opened [] = []"
| "opened (Opened p # evs) = p # opened evs"
| "opened (HeaderNotFound p # evs) = opened evs"
| "opened (NestedHeader n # evs) = opened evs"
| "opened (Inlining n s # evs) = opened evs"

text \<open>
  What the events of a traversal that starts with the set \<open>seen\<close> keep, whether it returns
  or raises: no header is read twice, none that was in the set at the start is read, and
  every header read is a readable path. A traversal that returns with the set \<open>seen'\<close> has
  only added to the set, and every header read is in it.
\<close>

definition events_ok :: "filesystem \<Rightarrow> path set \<Rightarrow> event list \<Rightarrow> bool" where
  "events_ok fs seen evs =
     (distinct (opened evs) \<and> set (opened evs) \<inter> seen = {}
      \<and> set (opened evs) \<subseteq> set (readable_paths fs))"

definition traversal_ok :: "filesystem \<Rightarrow> path set \<Rightarrow> path set \<Rightarrow> event list \<Rightarrow> bool" where
  "traversal_ok fs seen seen' evs =
     (seen \<subseteq> seen' \<and> set (opened evs) \<subseteq> seen' \<and> events_ok fs seen evs)"






definition nl :: string where "nl = [CHR 0x0A]"
definition dq :: string where "dq = [CHR 0x22]"





text \<open>A header that includes itself.\<close>

definition self_fs :: filesystem where
  "self_fs = [(''/p/s.h'', File (''#include '' @ dq @ ''s.h'' @ dq @ nl @ ''int s;''))]"

text \<open>A header with no local include: the example of the specification, two lines longer.\<close>

definition plain_content :: string where
  "plain_content = ''#pragma once'' @ nl @ ''int x=1;  // comment'' @ nl @ ''  #pragma once '' @ nl
                     @ ''#include <vector>'' @ nl @ ''#define FOO 1''"

definition plain_fs :: filesystem where
  "plain_fs = [(''/p/a.cpp'', File (''int main;'' @ nl)), (''/p/b.h'', File plain_content)]"

definition default_config :: config where
  "default_config = \<lparr>output_dir = ''build'', minify_style = ''none'', multiline_max_chars = 120\<rparr>"

section \<open>Notions used to state the properties of the Content Transformer\<close>

text \<open>
  The two lists that the classification loop of \<open>process_file\<close> ends with, for a flattened
  text.
\<close>

definition directives_of :: "string \<Rightarrow> string list" where
  "directives_of flattened_content =
     fst (classify_lines (splitlines (strip_comments flattened_content)) [] [])"

definition code_lines_of :: "string \<Rightarrow> string list" where
  "code_lines_of flattened_content =
     snd (classify_lines (splitlines (strip_comments flattened_content)) [] [])"

text \<open>A text that is not empty and neither begins nor ends with whitespace.\<close>

definition nonspace_ends :: "string \<Rightarrow> bool" where
  "nonspace_ends s = (s \<noteq> [] \<and> \<not> is_space (hd s) \<and> \<not> is_space (last s))"

text \<open>
  The packing as the specification words it: a line starts with the first fragment; each
  further fragment joins the current line, behind one space, when the line then has at most
  \<open>max_width\<close> characters, and otherwise ends it and starts the next. The result is the
  list of lines, each as the list of its fragments.
\<close>

fun pack :: "int \<Rightarrow> string list \<Rightarrow> string list \<Rightarrow> string list list" where
  "pack max_width cur [] = [cur]"
| "pack max_width cur (p # ps) =
     (if int (length (join '' '' cur)) + int (length p) + 1 \<le> max_width
      then pack max_width (cur @ [p]) ps
      else cur # pack max_width [p] ps)"

fun pack_fragments :: "int \<Rightarrow> string list \<Rightarrow> string list list" where
  "pack_fragments max_width [] = []"
| "pack_fragments max_width (p # ps) = pack max_width [p] ps"

text \<open>
  A text has a block comment when some \<open>/*\<close> in it has a \<open>*/\<close> behind it, and a line
  comment when it has a \<open>//\<close>.
\<close>

fun has_block_comment :: "string \<Rightarrow> bool" where
  "has_block_comment [] = False"
| "has_block_comment [c] = False"
| "has_block_comment (c # d # cs) =
     ((c = CHR ''/'' \<and> d = CHR ''*'' \<and> find_close cs \<noteq> None) \<or> has_block_comment (d # cs))"

fun has_line_comment :: "string \<Rightarrow> bool" where
  "has_line_comment [] = False"
| "has_line_comment [c] = False"
| "has_line_comment (c # d # cs) =
     ((c = CHR ''/'' \<and> d = CHR ''/'') \<or> has_line_comment (d # cs))"

text \<open>
  Tokens. \<open>tok solo cur s\<close> splits \<open>s\<close> at whitespace, with every character that \<open>solo\<close>
  holds of as a token of its own; \<open>cur\<close> is the token begun so far. \<open>tokens\<close> are the
  tokens in the sense of \<open>str.split()\<close>, the maximal runs of characters that are not
  whitespace; \<open>code_tokens\<close> are those with each of \<open>; { } ( ) , < > = [ ]\<close> split off as
  a token.
\<close>

definition flush :: "string \<Rightarrow> string list" where
  "flush cur = (if cur = [] then [] else [cur])"

fun tok :: "(char \<Rightarrow> bool) \<Rightarrow> string \<Rightarrow> string \<Rightarrow> string list" where
  "tok solo cur [] = flush cur"
| "tok solo cur (c # cs) =
     (if is_space c then flush cur @ tok solo [] cs
      else if solo c then flush cur @ [c] # tok solo [] cs
      else tok solo (cur @ [c]) cs)"

definition tokens :: "string \<Rightarrow> string list" where
  "tokens s = tok (\<lambda>c. False) [] s"

definition code_tokens :: "string \<Rightarrow> string list" where
  "code_tokens s = tok is_punctuation [] s"


definition wrap_sample :: string where
  "wrap_sample = ''abc ;'' @ nl @ ''defg;'' @ nl @ ''hijklmnopqrs;'' @ nl @ ''t;'' @ nl @ ''u;''"

definition comment_sample :: string where
  "comment_sample = ''int x=1;  // comment'' @ nl @ ''/* a */ y''"

definition token_sample :: string where
  "token_sample = ''unsigned   int x'' @ nl @ ''#define N 3'' @ nl @ ''  long long  y''"

text \<open>A header name below a regular file: \<open>b.h\<close> is a file, so \<open>b.h/x.h\<close> does not exist.\<close>

definition notdir_fs :: filesystem where
  "notdir_fs =
     [(''/p/a.cpp'', File (''int main;'' @ nl @ ''#include '' @ dq @ ''b.h/x.h'' @ dq @ '' //@'' @ nl
                            @ ''int z;'' @ nl)),
      (''/p/b.h'', File ''int b;'')]"

section \<open>Properties of the Header Resolver\<close>

lemma opened_append: "opened (xs @ ys) = opened xs @ opened ys"
  by (induction xs rule: opened.induct) auto

lemma traversal_ok_refl: "traversal_ok fs seen seen []"
  by (simp add: traversal_ok_def events_ok_def)

lemma traversal_ok_trans:
  assumes "traversal_ok fs s0 s1 e1" and "traversal_ok fs s1 s2 e2"
  shows "traversal_ok fs s0 s2 (e1 @ e2)"
  using assms unfolding traversal_ok_def events_ok_def opened_append by auto

lemma events_ok_trans:
  assumes "traversal_ok fs s0 s1 e1" and "events_ok fs s1 e2"
  shows "events_ok fs s0 (e1 @ e2)"
  using assms unfolding traversal_ok_def events_ok_def opened_append by auto

lemma traversal_ok_events: "traversal_ok fs s0 s1 e \<Longrightarrow> events_ok fs s0 e"
  by (simp add: traversal_ok_def)

lemma traversal_ok_open:
  assumes "traversal_ok fs (insert a s0) s1 e" and "a \<notin> s0" and "open_header fs a = Inr c"
  shows "traversal_ok fs s0 s1 (Opened a # e)"
proof -
  have "a \<in> set (readable_paths fs)" using assms(3) by (rule open_header_readable)
  then show ?thesis using assms(1,2) unfolding traversal_ok_def events_ok_def by auto
qed

lemma events_ok_open:
  assumes "events_ok fs (insert a s0) e" and "a \<notin> s0" and "open_header fs a = Inr c"
  shows "events_ok fs s0 (Opened a # e)"
proof -
  have "a \<in> set (readable_paths fs)" using assms(3) by (rule open_header_readable)
  then show ?thesis using assms(1,2) unfolding events_ok_def by auto
qed

lemma traversal_ok_nested:
  "traversal_ok fs s0 s1 e \<Longrightarrow> traversal_ok fs s0 s1 (NestedHeader n # e)"
  unfolding traversal_ok_def events_ok_def by simp

lemma events_ok_nested: "events_ok fs s0 e \<Longrightarrow> events_ok fs s0 (NestedHeader n # e)"
  unfolding events_ok_def by simp

lemma inline_traversal:
  "(\<forall>t seen' evs. recursively_inline fs cwd hp seen = Inr (t, seen', evs) \<longrightarrow>
       traversal_ok fs seen seen' evs \<and> abspath cwd hp \<in> seen')
   \<and> (\<forall>e evs. recursively_inline fs cwd hp seen = Inl (e, evs) \<longrightarrow> events_ok fs seen evs)"
  "(\<forall>out seen' evs. inline_lines fs cwd dir ls acc seen = Inr (out, seen', evs) \<longrightarrow>
       traversal_ok fs seen seen' evs)
   \<and> (\<forall>e evs. inline_lines fs cwd dir ls acc seen = Inl (e, evs) \<longrightarrow> events_ok fs seen evs)"
proof (induction fs cwd hp seen and fs cwd dir ls acc seen
    rule: recursively_inline_inline_lines.induct)
  case (1 fs cwd header_path seen_files)
  let ?a = "abspath cwd header_path"
  show ?case
  proof (cases "?a \<in> seen_files")
    case True
    then show ?thesis by (simp add: traversal_ok_refl)
  next
    case False
    show ?thesis
    proof (cases "open_header fs ?a")
      case (Inl e)
      then show ?thesis using False
        by (auto simp: traversal_ok_def events_ok_def)
    next
      case (Inr content)
      note ih = "1.IH" [OF refl False Inr]
      show ?thesis
      proof (cases "inline_lines fs cwd (dirname ?a) (splitlines content) []
                      (insert ?a seen_files)")
        case l: (Inl x)
        obtain e evs where x: "x = (e, evs)" by (cases x)
        have "events_ok fs (insert ?a seen_files) evs" using ih l x by simp
        then have "events_ok fs seen_files (Opened ?a # evs)"
          using False Inr by (rule events_ok_open)
        then show ?thesis using False Inr l x by (simp add: Let_def)
      next
        case r: (Inr y)
        obtain out s1 e1 where y: "y = (out, s1, e1)" by (cases y)
        have ok: "traversal_ok fs (insert ?a seen_files) s1 e1" using ih r y by simp
        then have "?a \<in> s1" unfolding traversal_ok_def by auto
        moreover have "traversal_ok fs seen_files s1 (Opened ?a # e1)"
          using ok False Inr by (rule traversal_ok_open)
        ultimately show ?thesis using False Inr r y by (simp add: Let_def)
      qed
    qed
  qed
next
  case (2 fs cwd header_dir processed_lines seen_files)
  show ?case by (simp add: traversal_ok_refl)
next
  case (3 fs cwd header_dir line rest processed_lines seen_files)
  show ?case
  proof (cases "match_include line")
    case None
    show ?thesis
    proof (cases "strip line = ''#pragma once''")
      case True
      show ?thesis using "3.IH"(2) [OF None] True None by simp
    next
      case False
      show ?thesis using "3.IH"(1) [OF None False] False None by simp
    qed
  next
    case (Some name)
    note ih1 = "3.IH"(3) [OF Some]
    show ?thesis
    proof (cases "recursively_inline fs cwd (path_join header_dir name) seen_files")
      case l: (Inl x)
      obtain e evs where x: "x = (e, evs)" by (cases x)
      have "events_ok fs seen_files evs" using ih1 l x by simp
      then have "events_ok fs seen_files (NestedHeader name # evs)"
        by (rule events_ok_nested)
      then show ?thesis using Some l x by simp
    next
      case r: (Inr y)
      obtain t s1 e1 where y: "y = (t, s1, e1)" by (cases y)
      have a: "traversal_ok fs seen_files s1 e1" using ih1 r y by simp
      note ih2 = "3.IH"(4) [OF Some r [unfolded y] refl refl]
      show ?thesis
      proof (cases "inline_lines fs cwd header_dir rest (processed_lines @ [t]) s1")
        case l2: (Inl x)
        obtain e evs where x: "x = (e, evs)" by (cases x)
        have "events_ok fs s1 evs" using ih2 l2 x by simp
        then have "events_ok fs seen_files (NestedHeader name # e1 @ evs)"
          using events_ok_trans [OF a] events_ok_nested by blast
        then show ?thesis using Some r y l2 x by simp
      next
        case r2: (Inr z)
        obtain out s2 e2 where z: "z = (out, s2, e2)" by (cases z)
        have b: "traversal_ok fs s1 s2 e2" using ih2 r2 z by simp
        have "traversal_ok fs seen_files s2 (NestedHeader name # e1 @ e2)"
          using traversal_ok_trans [OF a b] by (rule traversal_ok_nested)
        then show ?thesis using Some r y r2 z by simp
      qed
    qed
  qed
qed

lemma inline_lines_plain:
  "\<forall>l\<in>set ls. match_include l = None \<Longrightarrow>
     inline_lines fs cwd dir ls acc seen
       = Inr (acc @ filter (\<lambda>l. strip l \<noteq> ''#pragma once'') ls, seen, [])"
  by (induction ls arbitrary: acc) auto

text \<open>
  The loop only ever appends to \<open>processed_lines\<close>: what it returns is what it was given,
  followed by what it returns when given nothing.
\<close>

lemma inline_lines_acc:
  "inline_lines fs cwd dir ls acc seen
     = (case inline_lines fs cwd dir ls [] seen of
          Inl x \<Rightarrow> Inl x
        | Inr (out, s, e) \<Rightarrow> Inr (acc @ out, s, e))"
proof (induction ls arbitrary: acc seen)
  case Nil
  show ?case by simp
next
  case (Cons line rest)
  show ?case
  proof (cases "match_include line")
    case None
    show ?thesis
    proof (cases "strip line = ''#pragma once''")
      case True
      then show ?thesis using None Cons.IH [of acc seen] by simp
    next
      case False
      then show ?thesis
        using None Cons.IH [of "acc @ [line]" seen] Cons.IH [of "[line]" seen]
        by (simp split: sum.splits)
    qed
  next
    case (Some name)
    show ?thesis
    proof (cases "recursively_inline fs cwd (path_join dir name) seen")
      case (Inl x)
      then show ?thesis using Some by (simp split: prod.splits)
    next
      case (Inr y)
      obtain t s1 e1 where y: "y = (t, s1, e1)" by (cases y)
      show ?thesis
        using Some Inr y Cons.IH [of "acc @ [t]" s1] Cons.IH [of "[t]" s1]
        by (simp split: sum.splits prod.splits)
    qed
  qed
qed

text \<open>The loop over two lists of lines, one after the other.\<close>

lemma inline_lines_append:
  "inline_lines fs cwd dir (xs @ ys) acc seen
     = (case inline_lines fs cwd dir xs acc seen of
          Inl x \<Rightarrow> Inl x
        | Inr (o1, s1, e1) \<Rightarrow>
            (case inline_lines fs cwd dir ys o1 s1 of
               Inl (x, e2) \<Rightarrow> Inl (x, e1 @ e2)
             | Inr (o2, s2, e2) \<Rightarrow> Inr (o2, s2, e1 @ e2)))"
proof (induction xs arbitrary: acc seen)
  case Nil
  show ?case by (simp split: sum.splits prod.splits)
next
  case (Cons line rest)
  show ?case
  proof (cases "match_include line")
    case None
    show ?thesis
    proof (cases "strip line = ''#pragma once''")
      case True
      then show ?thesis using None Cons.IH [of acc seen] by simp
    next
      case False
      then show ?thesis using None Cons.IH [of "acc @ [line]" seen] by simp
    qed
  next
    case (Some name)
    show ?thesis
    proof (cases "recursively_inline fs cwd (path_join dir name) seen")
      case (Inl x)
      then show ?thesis using Some by (simp split: prod.splits)
    next
      case (Inr y)
      obtain t s1 e1 where y: "y = (t, s1, e1)" by (cases y)
      show ?thesis
        using Some Inr y Cons.IH [of "acc @ [t]" s1]
        by (simp split: sum.splits prod.splits)
    qed
  qed
qed

text \<open>
  A line that matches the local include pattern, anywhere in a header: the lines returned
  are those for the lines before it, the text that the recursive call returns, and those
  for the lines after it.
\<close>

lemma inline_lines_include:
  assumes "match_include line = Some name"
  shows "inline_lines fs cwd dir (pre @ line # post) acc seen
     = (case inline_lines fs cwd dir pre [] seen of
          Inl x \<Rightarrow> Inl x
        | Inr (o1, s1, e1) \<Rightarrow>
            (case recursively_inline fs cwd (path_join dir name) s1 of
               Inl (x, e2) \<Rightarrow> Inl (x, e1 @ NestedHeader name # e2)
             | Inr (t, s2, e2) \<Rightarrow>
                 (case inline_lines fs cwd dir post [] s2 of
                    Inl (x, e3) \<Rightarrow> Inl (x, e1 @ NestedHeader name # e2 @ e3)
                  | Inr (o3, s3, e3) \<Rightarrow>
                      Inr (acc @ o1 @ [t] @ o3, s3, e1 @ NestedHeader name # e2 @ e3))))"
proof (cases "inline_lines fs cwd dir pre [] seen")
  case (Inl x)
  then show ?thesis
    using inline_lines_append [of fs cwd dir pre "line # post" acc seen]
      inline_lines_acc [of fs cwd dir pre acc seen]
    by simp
next
  case (Inr y)
  obtain o1 s1 e1 where y: "y = (o1, s1, e1)" by (cases y)
  have a: "inline_lines fs cwd dir pre acc seen = Inr (acc @ o1, s1, e1)"
    using inline_lines_acc [of fs cwd dir pre acc seen] Inr y by simp
  have b: "inline_lines fs cwd dir (pre @ line # post) acc seen
             = (case inline_lines fs cwd dir (line # post) (acc @ o1) s1 of
                  Inl (x, e2) \<Rightarrow> Inl (x, e1 @ e2)
                | Inr (o2, s2, e2) \<Rightarrow> Inr (o2, s2, e1 @ e2))"
    using inline_lines_append [of fs cwd dir pre "line # post" acc seen] a by simp
  show ?thesis
  proof (cases "recursively_inline fs cwd (path_join dir name) s1")
    case l: (Inl x)
    then show ?thesis using b Inr y assms by (simp split: prod.splits)
  next
    case r: (Inr z)
    obtain t s2 e2 where z: "z = (t, s2, e2)" by (cases z)
    have c: "inline_lines fs cwd dir post ((acc @ o1) @ [t]) s2
               = (case inline_lines fs cwd dir post [] s2 of
                    Inl x \<Rightarrow> Inl x
                  | Inr (out, s, e) \<Rightarrow> Inr (((acc @ o1) @ [t]) @ out, s, e))"
      by (rule inline_lines_acc)
    show ?thesis using b Inr y assms r z c
      by (simp split: sum.splits prod.splits)
  qed
qed










lemma match_include_prefix:
  assumes "\<forall>c\<in>set ws. is_space c" and "name \<noteq> []" and "CHR 0x22 \<notin> set name"
  shows "match_include (ws @ ''#include '' @ [CHR 0x22] @ name @ [CHR 0x22] @ trailing) = Some name"
proof -
  have "\<not> is_space CHR ''#''" by (simp add: is_space_def whitespace_chars_def)
  then have "dropWhile is_space (ws @ ''#include '' @ [CHR 0x22] @ name @ [CHR 0x22] @ trailing)
               = ''#include '' @ [CHR 0x22] @ name @ [CHR 0x22] @ trailing"
    using assms(1) by (simp add: dropWhile_append2)
  moreover have "takeWhile (\<lambda>c. c \<noteq> CHR 0x22) (name @ CHR 0x22 # trailing) = name"
    using assms(3) by (induction name) auto
  moreover have "dropWhile (\<lambda>c. c \<noteq> CHR 0x22) (name @ CHR 0x22 # trailing) = CHR 0x22 # trailing"
    using assms(3) by (induction name) auto
  ultimately show ?thesis using assms(2)
    by (simp add: match_include_def match_here_def)
qed




text \<open>
  C2. For every file system, header and set, the call tree of \<open>recursively_inline\<close> is
  finite (the call is in the accessible part of the call relation; self-inclusion and
  cycles are file systems like any other). Whether the call returns or raises, no header is
  read twice, none that was in the set is read, and the number of headers read is at most
  the number of readable paths not in the set at the start. When it returns, the set that
  comes back contains the set passed in and the header itself. The depth of Python's own
  call stack is not bounded in the model.
\<close>

theorem inlining_terminates:
  "recursively_inline_inline_lines_dom (Inl (fs, cwd, header_path, seen_files))
   \<and> (case recursively_inline fs cwd header_path seen_files of
         Inl (e, evs) \<Rightarrow>
           distinct (opened evs) \<and> set (opened evs) \<inter> seen_files = {}
           \<and> length (opened evs) \<le> card (set (readable_paths fs) - seen_files)
       | Inr (t, seen', evs) \<Rightarrow>
           seen_files \<subseteq> seen' \<and> abspath cwd header_path \<in> seen'
           \<and> distinct (opened evs) \<and> set (opened evs) \<inter> seen_files = {}
           \<and> length (opened evs) \<le> card (set (readable_paths fs) - seen_files))"
proof -
  have bound: "length (opened evs) \<le> card (set (readable_paths fs) - seen_files)"
    if "events_ok fs seen_files evs" for evs
  proof -
    have d: "distinct (opened evs)"
      and sub: "set (opened evs) \<subseteq> set (readable_paths fs) - seen_files"
      using that unfolding events_ok_def by auto
    have "length (opened evs) = card (set (opened evs))"
      using d by (simp add: distinct_card)
    also have "\<dots> \<le> card (set (readable_paths fs) - seen_files)"
      using sub by (intro card_mono) auto
    finally show ?thesis .
  qed
  have dom: "recursively_inline_inline_lines_dom (Inl (fs, cwd, header_path, seen_files))"
    using inline_total by blast
  show ?thesis
  proof (cases "recursively_inline fs cwd header_path seen_files")
    case (Inl x)
    obtain e evs where x: "x = (e, evs)" by (cases x)
    have ok: "events_ok fs seen_files evs"
      using inline_traversal(1) [of fs cwd header_path seen_files] Inl x by simp
    show ?thesis using dom Inl x ok bound [OF ok] by (simp add: events_ok_def)
  next
    case (Inr y)
    obtain t seen' evs where y: "y = (t, seen', evs)" by (cases y)
    have ok: "traversal_ok fs seen_files seen' evs" and ab: "abspath cwd header_path \<in> seen'"
      using inline_traversal(1) [of fs cwd header_path seen_files] Inr y by simp_all
    have ev: "events_ok fs seen_files evs" using ok by (rule traversal_ok_events)
    show ?thesis using dom Inr y ok ab ev bound [OF ev]
      by (simp add: events_ok_def traversal_ok_def)
  qed
qed

theorem inlining_terminates_witness:
  "recursively_inline_inline_lines_dom (Inl (self_fs, ''/p'', ''s.h'', {}))
   \<and> recursively_inline self_fs ''/p'' ''s.h'' {}
       = Inr (nl @ ''int s;'', {''/p/s.h''}, [Opened ''/p/s.h'', NestedHeader ''s.h''])
   \<and> length (opened [Opened ''/p/s.h'', NestedHeader ''s.h''])
       \<le> card (set (readable_paths self_fs) - {})"
proof -
  have v: "recursively_inline self_fs ''/p'' ''s.h'' {}
             = Inr (nl @ ''int s;'', {''/p/s.h''}, [Opened ''/p/s.h'', NestedHeader ''s.h''])"
    by code_simp
  show ?thesis
    using inlining_terminates [of self_fs "''/p''" "''s.h''" "{}"] unfolding v
    by simp
qed

text \<open>
  C3. A header that is a readable file, is not yet in the set and has no line that matches
  the local include pattern is returned as its own lines (those of \<open>splitlines\<close>), in order,
  joined by \<open>\n\<close>, without the lines whose stripped form is \<open>#pragma once\<close>; the header
  is added to the set and nothing but the read happens.
\<close>

theorem plain_header_inlined_verbatim:
  assumes "abspath cwd p \<notin> seen"
      and "open_header fs (abspath cwd p) = Inr content"
      and "\<forall>l\<in>set (splitlines content). match_include l = None"
  shows "recursively_inline fs cwd p seen
           = Inr (join [CHR 0x0A] (filter (\<lambda>l. strip l \<noteq> ''#pragma once'') (splitlines content)),
                  insert (abspath cwd p) seen, [Opened (abspath cwd p)])"
  using assms by (simp add: inline_lines_plain Let_def)

theorem plain_header_inlined_verbatim_witness:
  "recursively_inline plain_fs ''/p'' ''b.h'' {}
     = Inr (''int x=1;  // comment'' @ nl @ ''#include <vector>'' @ nl @ ''#define FOO 1'',
            {''/p/b.h''}, [Opened ''/p/b.h''])"
proof -
  have a: "abspath ''/p'' ''b.h'' = ''/p/b.h''" by code_simp
  have b: "open_header plain_fs ''/p/b.h'' = Inr plain_content"
    by code_simp
  have c: "splitlines plain_content
             = [''#pragma once'', ''int x=1;  // comment'', ''  #pragma once '',
                ''#include <vector>'', ''#define FOO 1'']"
    by code_simp
  have d: "\<forall>l\<in>set (splitlines plain_content). match_include l = None"
    unfolding c by code_simp
  have e: "join [CHR 0x0A] (filter (\<lambda>l. strip l \<noteq> ''#pragma once'') (splitlines plain_content))
             = ''int x=1;  // comment'' @ nl @ ''#include <vector>'' @ nl @ ''#define FOO 1''"
    unfolding c by code_simp
  have "abspath ''/p'' ''b.h'' \<notin> {}" by simp
  from plain_header_inlined_verbatim [OF this, of plain_fs plain_content] a b d e
  show ?thesis by simp
qed

text \<open>
  C10. Inside a header, a line made of whitespace, \<open>#include "name"\<close> with a name that is
  not empty, and any text behind the closing quote matches the local include pattern with
  that name. Wherever the line stands among the lines of the header, the lines that the
  loop returns are those it was given, those for the lines before the include, the text
  that the recursive call for the name returns, and those for the lines after it: the
  result of the recursive call stands where the line stood, and the line itself, with the
  text behind the quote, is in none of the three. When a call raises, the loop raises. A
  header with such a line that is read returns these lines joined by \<open>\n\<close>.
\<close>

theorem nested_include_line_replaced_whole:
  assumes "\<forall>c\<in>set ws. is_space c" and "name \<noteq> []" and "CHR 0x22 \<notin> set name"
  shows "match_include (ws @ ''#include '' @ [CHR 0x22] @ name @ [CHR 0x22] @ trailing) = Some name
         \<and> inline_lines fs cwd header_dir
              (pre @ (ws @ ''#include '' @ [CHR 0x22] @ name @ [CHR 0x22] @ trailing) # post)
              processed_lines seen_files
           = (case inline_lines fs cwd header_dir pre [] seen_files of
                Inl x \<Rightarrow> Inl x
              | Inr (o1, s1, e1) \<Rightarrow>
                  (case recursively_inline fs cwd (path_join header_dir name) s1 of
                     Inl (x, e2) \<Rightarrow> Inl (x, e1 @ NestedHeader name # e2)
                   | Inr (t, s2, e2) \<Rightarrow>
                       (case inline_lines fs cwd header_dir post [] s2 of
                          Inl (x, e3) \<Rightarrow> Inl (x, e1 @ NestedHeader name # e2 @ e3)
                        | Inr (o3, s3, e3) \<Rightarrow>
                            Inr (processed_lines @ o1 @ [t] @ o3, s3,
                                 e1 @ NestedHeader name # e2 @ e3))))
         \<and> (abspath cwd p \<notin> seen_files \<and> open_header fs (abspath cwd p) = Inr content
              \<and> splitlines content
                  = pre @ (ws @ ''#include '' @ [CHR 0x22] @ name @ [CHR 0x22] @ trailing) # post
              \<and> inline_lines fs cwd (dirname (abspath cwd p)) pre []
                    (insert (abspath cwd p) seen_files) = Inr (o1, s1, e1)
              \<and> recursively_inline fs cwd (path_join (dirname (abspath cwd p)) name) s1
                    = Inr (t, s2, e2)
              \<and> inline_lines fs cwd (dirname (abspath cwd p)) post [] s2 = Inr (o3, s3, e3) \<longrightarrow>
            recursively_inline fs cwd p seen_files
              = Inr (join [CHR 0x0A] (o1 @ [t] @ o3), s3,
                     Opened (abspath cwd p) # e1 @ NestedHeader name # e2 @ e3))"
proof (intro conjI impI)
  let ?line = "ws @ ''#include '' @ [CHR 0x22] @ name @ [CHR 0x22] @ trailing"
  show m: "match_include ?line = Some name"
    using assms by (rule match_include_prefix)
  show "inline_lines fs cwd header_dir (pre @ ?line # post) processed_lines seen_files
           = (case inline_lines fs cwd header_dir pre [] seen_files of
                Inl x \<Rightarrow> Inl x
              | Inr (o1, s1, e1) \<Rightarrow>
                  (case recursively_inline fs cwd (path_join header_dir name) s1 of
                     Inl (x, e2) \<Rightarrow> Inl (x, e1 @ NestedHeader name # e2)
                   | Inr (t, s2, e2) \<Rightarrow>
                       (case inline_lines fs cwd header_dir post [] s2 of
                          Inl (x, e3) \<Rightarrow> Inl (x, e1 @ NestedHeader name # e2 @ e3)
                        | Inr (o3, s3, e3) \<Rightarrow>
                            Inr (processed_lines @ o1 @ [t] @ o3, s3,
                                 e1 @ NestedHeader name # e2 @ e3))))"
    using m by (rule inline_lines_include)
  assume h: "abspath cwd p \<notin> seen_files \<and> open_header fs (abspath cwd p) = Inr content
              \<and> splitlines content = pre @ ?line # post
              \<and> inline_lines fs cwd (dirname (abspath cwd p)) pre []
                    (insert (abspath cwd p) seen_files) = Inr (o1, s1, e1)
              \<and> recursively_inline fs cwd (path_join (dirname (abspath cwd p)) name) s1
                    = Inr (t, s2, e2)
              \<and> inline_lines fs cwd (dirname (abspath cwd p)) post [] s2 = Inr (o3, s3, e3)"
  have "inline_lines fs cwd (dirname (abspath cwd p)) (pre @ ?line # post) []
          (insert (abspath cwd p) seen_files)
          = Inr ([] @ o1 @ [t] @ o3, s3, e1 @ NestedHeader name # e2 @ e3)"
    using inline_lines_include [OF m, of fs cwd "dirname (abspath cwd p)" pre post "[]"
        "insert (abspath cwd p) seen_files"] h
    by simp
  then show "recursively_inline fs cwd p seen_files
              = Inr (join [CHR 0x0A] (o1 @ [t] @ o3), s3,
                     Opened (abspath cwd p) # e1 @ NestedHeader name # e2 @ e3)"
    using h by (simp add: Let_def)
qed

theorem nested_include_line_replaced_whole_witness:
  "match_include (''  '' @ ''#include '' @ [CHR 0x22] @ ''b.h'' @ [CHR 0x22] @ '' //@ int y;'')
     = Some ''b.h''
   \<and> inline_lines plain_fs ''/p'' ''/p''
        ([''int w;''] @ (''  '' @ ''#include '' @ [CHR 0x22] @ ''b.h'' @ [CHR 0x22] @ '' //@ int y;'')
           # [''int z;''])
        [''int v;''] {}
     = Inr ([''int v;'', ''int w;'',
             ''int x=1;  // comment'' @ nl @ ''#include <vector>'' @ nl @ ''#define FOO 1'',
             ''int z;''],
            {''/p/b.h''}, [NestedHeader ''b.h'', Opened ''/p/b.h''])"
proof -
  have a: "\<forall>c\<in>set ''  ''. is_space c"
    by (simp add: is_space_def whitespace_chars_def)
  have b: "''b.h'' \<noteq> []" and c: "CHR 0x22 \<notin> set ''b.h''"
    by simp_all
  have d: "(case inline_lines plain_fs ''/p'' ''/p'' [''int w;''] [] {} of
                Inl x \<Rightarrow> Inl x
              | Inr (o1, s1, e1) \<Rightarrow>
                  (case recursively_inline plain_fs ''/p'' (path_join ''/p'' ''b.h'') s1 of
                     Inl (x, e2) \<Rightarrow> Inl (x, e1 @ NestedHeader ''b.h'' # e2)
                   | Inr (t, s2, e2) \<Rightarrow>
                       (case inline_lines plain_fs ''/p'' ''/p'' [''int z;''] [] s2 of
                          Inl (x, e3) \<Rightarrow> Inl (x, e1 @ NestedHeader ''b.h'' # e2 @ e3)
                        | Inr (o3, s3, e3) \<Rightarrow>
                            Inr ([''int v;''] @ o1 @ [t] @ o3, s3,
                                 e1 @ NestedHeader ''b.h'' # e2 @ e3))))
           = Inr ([''int v;'', ''int w;'',
                   ''int x=1;  // comment'' @ nl @ ''#include <vector>'' @ nl @ ''#define FOO 1'',
                   ''int z;''],
                  {''/p/b.h''}, [NestedHeader ''b.h'', Opened ''/p/b.h''])"
    by code_simp
  note t = nested_include_line_replaced_whole [OF a b c,
        of "'' //@ int y;''" plain_fs "''/p''" "''/p''" "[''int w;'']" "[''int z;'']"
           "[''int v;'']" "{}"]
  from t [THEN conjunct1] t [THEN conjunct2, THEN conjunct1]
  show ?thesis
    unfolding d by simp
qed

section \<open>Properties of the root file loop\<close>

lemma startswith_append: "startswith (p @ s) p"
  by (induction p) auto

lemma endswith_append: "endswith (s @ p) p"
  by (simp add: endswith_def startswith_append)

lemma startswith_hd: "startswith s (x # p) \<Longrightarrow> \<exists>t. s = x # t"
  by (cases s) auto

lemma match_here_hash: "match_here s = Some n \<Longrightarrow> \<exists>t. s = CHR ''#'' # t"
  by (auto simp: match_here_def dest: startswith_hd split: if_splits)

lemma search_include_no_hash: "CHR ''#'' \<notin> set s \<Longrightarrow> search_include s = None"
proof (induction s)
  case Nil
  then show ?case by simp
next
  case (Cons c cs)
  have "match_here (c # cs) = None"
  proof (cases "match_here (c # cs)")
    case None
    then show ?thesis .
  next
    case (Some n)
    then show ?thesis using Cons.prems match_here_hash [of "c # cs" n] by auto
  qed
  then show ?case using Cons by simp
qed

lemma match_here_named:
  assumes "name \<noteq> []" and "CHR 0x22 \<notin> set name"
  shows "match_here (''#include '' @ [CHR 0x22] @ name @ [CHR 0x22] @ trailing) = Some name"
proof -
  have "takeWhile (\<lambda>c. c \<noteq> CHR 0x22) (name @ CHR 0x22 # trailing) = name"
    using assms(2) by (induction name) auto
  moreover have "dropWhile (\<lambda>c. c \<noteq> CHR 0x22) (name @ CHR 0x22 # trailing) = CHR 0x22 # trailing"
    using assms(2) by (induction name) auto
  ultimately show ?thesis using assms(1)
    by (simp add: match_here_def)
qed

lemma final_content_empty: "final_content style m [] = []"
  by (simp add: final_content_def strip_comments_def)

lemma strip_Nil: "strip [] = []"
  by (simp add: strip_def)

lemma marked_include_shape:
  assumes "header_name \<noteq> []" and "CHR 0x22 \<notin> set header_name"
  shows "startswith (''#include '' @ [CHR 0x22] @ header_name @ [CHR 0x22] @ mid @ ''//@'')
           (''#include '' @ [CHR 0x22])"
    and "endswith (''#include '' @ [CHR 0x22] @ header_name @ [CHR 0x22] @ mid @ ''//@'') ''//@''"
    and "search_include (''#include '' @ [CHR 0x22] @ header_name @ [CHR 0x22] @ mid @ ''//@'')
           = Some header_name"
proof -
  let ?s = "''#include '' @ [CHR 0x22] @ header_name @ [CHR 0x22] @ mid @ ''//@''"
  show "startswith ?s (''#include '' @ [CHR 0x22])"
    by simp
  show "endswith ?s ''//@''"
    using endswith_append [of "''#include '' @ [CHR 0x22] @ header_name @ [CHR 0x22] @ mid" "''//@''"]
    by simp
  show "search_include ?s = Some header_name"
    using match_here_named [OF assms, of "mid @ ''//@''"] by simp
qed

text \<open>
  C8, as stated, fails. The header \<open>b.h/x.h\<close> does not exist, because \<open>b.h\<close> is a regular
  file: opening it raises \<open>NotADirectoryError\<close>, which \<open>recursively_inline\<close> does not catch.
  No warning is printed and no marker written, and the run ends with this exception after
  the first line of the root file.
\<close>

theorem missing_header_below_file_aborts:
  "node_at notdir_fs ''/p/b.h/x.h'' = None
   \<and> open_header notdir_fs ''/p/b.h/x.h'' = Inl NotADirectoryError
   \<and> process_file notdir_fs ''/p'' ''a.cpp'' default_config
       = (''int main;'' @ nl, [Inlining ''b.h/x.h'' ''none''], UnexpectedError NotADirectoryError)"
  by code_simp

text \<open>
  C8, amended. Take any line of the root file that the loop treats as a marked include: its
  stripped form starts with \<open>#include "\<close>, ends with \<open>//@\<close>, and the pattern finds a header
  name in it (a line \<open>#include "name" //@\<close> is one, by \<open>marked_include_shape\<close>). When
  opening the header raises \<open>FileNotFoundError\<close>, the loop writes the start marker, an empty
  line and the end marker: the rendered block is the empty text, and the \<open>\n\<close> that follows
  every block is all there is between the markers. The events are the message of the marked
  include and the warning with the path that was tried, and the loop goes on with the
  remaining lines, whose output and events follow. When opening the header raises any
  other exception, nothing is written for the line, no warning is printed, and the loop
  ends there with the exception.
\<close>

theorem missing_header_gives_empty_block:
  assumes "startswith (strip line) (''#include '' @ [CHR 0x22])"
      and "endswith (strip line) ''//@''"
      and "search_include (strip line) = Some header_name"
  shows "(open_header fs (abspath cwd (path_join source_directory header_name))
            = Inl FileNotFoundError \<longrightarrow>
          process_line fs cwd source_directory cfg line
            = Inr (start_marker header_name @ [CHR 0x0A] @ end_marker header_name,
                   [Inlining header_name (minify_style cfg),
                    HeaderNotFound (path_join source_directory header_name)])
          \<and> process_lines fs cwd source_directory cfg (line # rest)
            = (case process_lines fs cwd source_directory cfg rest of
                 (written', evs', raised) \<Rightarrow>
                   (start_marker header_name @ [CHR 0x0A] @ end_marker header_name @ written',
                    [Inlining header_name (minify_style cfg),
                     HeaderNotFound (path_join source_directory header_name)] @ evs',
                    raised)))
         \<and> (open_header fs (abspath cwd (path_join source_directory header_name)) = Inl e
              \<and> e \<noteq> FileNotFoundError \<longrightarrow>
            process_lines fs cwd source_directory cfg (line # rest)
              = ([], [Inlining header_name (minify_style cfg)], Some e))"
proof (intro conjI impI)
  assume nf: "open_header fs (abspath cwd (path_join source_directory header_name))
                = Inl FileNotFoundError"
  have d: "recursively_inline fs cwd (path_join source_directory header_name) {}
             = Inr ([], {abspath cwd (path_join source_directory header_name)},
                    [HeaderNotFound (path_join source_directory header_name)])"
    using nf by (simp add: Let_def)
  show e: "process_line fs cwd source_directory cfg line
           = Inr (start_marker header_name @ [CHR 0x0A] @ end_marker header_name,
                  [Inlining header_name (minify_style cfg),
                   HeaderNotFound (path_join source_directory header_name)])"
    unfolding process_line_def Let_def
    using assms d by (simp add: final_content_empty strip_Nil)
  show "process_lines fs cwd source_directory cfg (line # rest)
            = (case process_lines fs cwd source_directory cfg rest of
                 (written', evs', raised) \<Rightarrow>
                   (start_marker header_name @ [CHR 0x0A] @ end_marker header_name @ written',
                    [Inlining header_name (minify_style cfg),
                     HeaderNotFound (path_join source_directory header_name)] @ evs',
                    raised))"
    using e by (simp split: prod.splits)
next
  assume ex: "open_header fs (abspath cwd (path_join source_directory header_name)) = Inl e
              \<and> e \<noteq> FileNotFoundError"
  have d: "recursively_inline fs cwd (path_join source_directory header_name) {} = Inl (e, [])"
    using ex by (simp add: Let_def)
  have "process_line fs cwd source_directory cfg line
          = Inl (e, [Inlining header_name (minify_style cfg)])"
    unfolding process_line_def Let_def
    using assms d by simp
  then show "process_lines fs cwd source_directory cfg (line # rest)
              = ([], [Inlining header_name (minify_style cfg)], Some e)"
    by simp
qed

theorem missing_header_gives_empty_block_witness:
  "process_lines plain_fs ''/p'' ''/p'' default_config
     [''#include '' @ [CHR 0x22] @ ''missing.h'' @ [CHR 0x22] @ '' //@'' @ nl, ''int z;'' @ nl]
   = (''// --- Start of inlined file: missing.h ---'' @ nl @ nl
        @ ''// --- End of inlined file: missing.h ---'' @ nl @ ''int z;'' @ nl,
      [Inlining ''missing.h'' ''none'', HeaderNotFound ''/p/missing.h''], None)
   \<and> process_lines plain_fs ''/p'' ''/p'' default_config
     [''#include '' @ [CHR 0x22] @ ''a.cpp/m.h'' @ [CHR 0x22] @ '' //@'' @ nl, ''int z;'' @ nl]
   = ([], [Inlining ''a.cpp/m.h'' ''none''], Some NotADirectoryError)"
proof -
  have s: "strip (''#include '' @ [CHR 0x22] @ ''missing.h'' @ [CHR 0x22] @ '' //@'' @ nl)
             = ''#include '' @ [CHR 0x22] @ ''missing.h'' @ [CHR 0x22] @ '' '' @ ''//@''"
    by code_simp
  have n: "''missing.h'' \<noteq> []" and q: "CHR 0x22 \<notin> set ''missing.h''"
    by simp_all
  note shape = marked_include_shape [OF n q, of "'' ''", folded s]
  have d: "open_header plain_fs (abspath ''/p'' (path_join ''/p'' ''missing.h''))
             = Inl FileNotFoundError"
    by code_simp
  have e: "process_lines plain_fs ''/p'' ''/p'' default_config [''int z;'' @ nl]
             = (''int z;'' @ nl, [], None)"
    by code_simp
  have f: "path_join ''/p'' ''missing.h'' = ''/p/missing.h''"
    by code_simp
  have g: "minify_style default_config = ''none''"
    by (simp add: default_config_def)
  have first: "process_lines plain_fs ''/p'' ''/p'' default_config
     [''#include '' @ [CHR 0x22] @ ''missing.h'' @ [CHR 0x22] @ '' //@'' @ nl, ''int z;'' @ nl]
   = (''// --- Start of inlined file: missing.h ---'' @ nl @ nl
        @ ''// --- End of inlined file: missing.h ---'' @ nl @ ''int z;'' @ nl,
      [Inlining ''missing.h'' ''none'', HeaderNotFound ''/p/missing.h''], None)"
    using missing_header_gives_empty_block [OF shape, THEN conjunct1, rule_format, OF d,
        THEN conjunct2, of default_config "[''int z;'' @ nl]"]
    unfolding e f g by (simp add: start_marker_def end_marker_def nl_def del: process_lines.simps)
  have s2: "strip (''#include '' @ [CHR 0x22] @ ''a.cpp/m.h'' @ [CHR 0x22] @ '' //@'' @ nl)
             = ''#include '' @ [CHR 0x22] @ ''a.cpp/m.h'' @ [CHR 0x22] @ '' '' @ ''//@''"
    by code_simp
  have n2: "''a.cpp/m.h'' \<noteq> []" and q2: "CHR 0x22 \<notin> set ''a.cpp/m.h''"
    by simp_all
  note shape2 = marked_include_shape [OF n2 q2, of "'' ''", folded s2]
  have d2: "open_header plain_fs (abspath ''/p'' (path_join ''/p'' ''a.cpp/m.h''))
              = Inl NotADirectoryError \<and> NotADirectoryError \<noteq> FileNotFoundError"
    by code_simp
  have second: "process_lines plain_fs ''/p'' ''/p'' default_config
     [''#include '' @ [CHR 0x22] @ ''a.cpp/m.h'' @ [CHR 0x22] @ '' //@'' @ nl, ''int z;'' @ nl]
   = ([], [Inlining ''a.cpp/m.h'' ''none''], Some NotADirectoryError)"
    using missing_header_gives_empty_block [OF shape2, THEN conjunct2, rule_format, OF d2,
        of default_config "[''int z;'' @ nl]"]
    unfolding g .
  show ?thesis using first second by (rule conjI)
qed

text \<open>
  C9. A line of the root file whose stripped form is \<open>#include ""\<close>, any text without
  \<open>#\<close> (the single space of \<open>#include "" //@\<close> for one), \<open>//@\<close>, passes the test of the
  marked include, but the pattern finds no name in it: the line is written as it is, with
  no marker and no event.
\<close>

theorem empty_name_marked_include_verbatim:
  assumes "strip line = ''#include '' @ [CHR 0x22, CHR 0x22] @ mid @ ''//@''"
      and "CHR ''#'' \<notin> set mid"
  shows "process_line fs cwd source_directory cfg line = Inr (line, [])"
proof -
  let ?s = "''#include '' @ [CHR 0x22, CHR 0x22] @ mid @ ''//@''"
  have a: "match_here ?s = None"
    by (simp add: match_here_def)
  have "CHR ''#'' \<notin> set (''include '' @ [CHR 0x22, CHR 0x22] @ mid @ ''//@'')"
    using assms(2) by simp
  then have "search_include (''include '' @ [CHR 0x22, CHR 0x22] @ mid @ ''//@'') = None"
    by (rule search_include_no_hash)
  then have "search_include ?s = None"
    using a by simp
  then show ?thesis
    unfolding process_line_def Let_def assms(1) by simp
qed

theorem empty_name_marked_include_verbatim_witness:
  "process_line plain_fs ''/p'' ''/p'' default_config
     (''  #include '' @ [CHR 0x22, CHR 0x22] @ '' //@'' @ nl)
   = Inr (''  #include '' @ [CHR 0x22, CHR 0x22] @ '' //@'' @ nl, [])"
proof -
  have a: "strip (''  #include '' @ [CHR 0x22, CHR 0x22] @ '' //@'' @ nl)
             = ''#include '' @ [CHR 0x22, CHR 0x22] @ '' '' @ ''//@''"
    by code_simp
  have b: "CHR ''#'' \<notin> set '' ''"
    by simp
  from empty_name_marked_include_verbatim [OF a b]
  show ?thesis .
qed

section \<open>Properties of the Content Transformer\<close>

lemma join_Cons: "xs \<noteq> [] \<Longrightarrow> join sep (x # xs) = x @ sep @ join sep xs"
  by (cases xs) auto

lemma join_snoc: "xs \<noteq> [] \<Longrightarrow> join sep (xs @ [x]) = join sep xs @ sep @ x"
  by (induction sep xs rule: join.induct) auto

lemma join_nonempty: "xs \<noteq> [] \<Longrightarrow> \<forall>x\<in>set xs. x \<noteq> [] \<Longrightarrow> join sep xs \<noteq> []"
  by (induction sep xs rule: join.induct) auto

lemma set_join: "set (join sep xs) \<subseteq> set sep \<union> \<Union> (set ` set xs)"
  by (induction sep xs rule: join.induct) auto

lemma pack_nonempty: "pack m cur ps \<noteq> []"
  by (induction ps arbitrary: cur) auto

lemma concat_pack: "concat (pack m cur ps) = cur @ ps"
  by (induction ps arbitrary: cur) auto

lemma pack_groups_nonempty: "cur \<noteq> [] \<Longrightarrow> \<forall>g\<in>set (pack m cur ps). g \<noteq> []"
  by (induction ps arbitrary: cur) auto

lemma pack_width:
  "int (length (join '' '' cur)) \<le> m \<or> (\<exists>p. cur = [p]) \<Longrightarrow>
     \<forall>g\<in>set (pack m cur ps).
        int (length (join '' '' g)) \<le> m \<or> (\<exists>p. g = [p] \<and> m < int (length p))"
proof (induction ps arbitrary: cur)
  case Nil
  then show ?case by auto
next
  case (Cons p ps)
  show ?case
  proof (cases "int (length (join '' '' cur)) + int (length p) + 1 \<le> m")
    case True
    have "cur \<noteq> [] \<Longrightarrow> int (length (join '' '' (cur @ [p]))) \<le> m"
      using True by (simp add: join_snoc)
    moreover have "cur = [] \<Longrightarrow> \<exists>q. cur @ [p] = [q]" by simp
    ultimately have "int (length (join '' '' (cur @ [p]))) \<le> m \<or> (\<exists>q. cur @ [p] = [q])"
      by blast
    from Cons.IH [OF this] show ?thesis using True by simp
  next
    case False
    have a: "\<forall>g\<in>set (pack m [p] ps).
        int (length (join '' '' g)) \<le> m \<or> (\<exists>p. g = [p] \<and> m < int (length p))"
      by (rule Cons.IH) simp
    have b: "int (length (join '' '' cur)) \<le> m \<or> (\<exists>q. cur = [q] \<and> m < int (length q))"
      using Cons.prems by auto
    show ?thesis using a b False by simp
  qed
qed

lemma wrap_loop_pack:
  assumes "cur \<noteq> []" and "\<forall>x\<in>set cur. x \<noteq> []" and "\<forall>x\<in>set ps. x \<noteq> []"
  shows "(case wrap_loop m ps w (join '' '' cur) of
            (wrapped_code, current_line) \<Rightarrow>
              if current_line \<noteq> [] then wrapped_code @ current_line else wrapped_code)
         = w @ join [CHR 0x0A] (map (join '' '') (pack m cur ps))"
  using assms
proof (induction ps arbitrary: w cur)
  case Nil
  then show ?case by (simp add: join_nonempty)
next
  case (Cons p ps)
  have ne: "join '' '' cur \<noteq> []"
    using Cons.prems(1,2) by (rule join_nonempty)
  show ?case
  proof (cases "int (length (join '' '' cur)) + int (length p) + 1 \<le> m")
    case True
    have j: "join '' '' (cur @ [p]) = join '' '' cur @ '' '' @ p"
      using Cons.prems(1) by (rule join_snoc)
    have "(case wrap_loop m ps w (join '' '' (cur @ [p])) of
            (wrapped_code, current_line) \<Rightarrow>
              if current_line \<noteq> [] then wrapped_code @ current_line else wrapped_code)
         = w @ join [CHR 0x0A] (map (join '' '') (pack m (cur @ [p]) ps))"
      using Cons.prems by (intro Cons.IH) auto
    then show ?thesis using True ne j by simp
  next
    case False
    have "(case wrap_loop m ps (w @ join '' '' cur @ [CHR 0x0A]) (join '' '' [p]) of
            (wrapped_code, current_line) \<Rightarrow>
              if current_line \<noteq> [] then wrapped_code @ current_line else wrapped_code)
         = (w @ join '' '' cur @ [CHR 0x0A]) @ join [CHR 0x0A] (map (join '' '') (pack m [p] ps))"
      using Cons.prems by (intro Cons.IH) auto
    moreover have "map (join '' '') (pack m [p] ps) \<noteq> []"
      by (simp add: pack_nonempty)
    ultimately show ?thesis using False ne by (simp add: join_Cons)
  qed
qed

lemma wrap_code_pack:
  assumes "\<forall>x\<in>set parts. x \<noteq> []"
  shows "wrap_code m parts = join [CHR 0x0A] (map (join '' '') (pack_fragments m parts))"
proof (cases parts)
  case Nil
  then show ?thesis by (simp add: wrap_code_def)
next
  case (Cons p ps)
  have "(case wrap_loop m ps [] (join '' '' [p]) of
            (wrapped_code, current_line) \<Rightarrow>
              if current_line \<noteq> [] then wrapped_code @ current_line else wrapped_code)
         = [] @ join [CHR 0x0A] (map (join '' '') (pack m [p] ps))"
    using assms Cons by (intro wrap_loop_pack) auto
  then show ?thesis using Cons by (simp add: wrap_code_def)
qed

lemma space_is_space: "is_space CHR 0x20"
  by (simp add: is_space_def whitespace_chars_def)

lemma newline_is_space: "is_space CHR 0x0A"
  by (simp add: is_space_def whitespace_chars_def)

lemma punctuation_not_space: "is_punctuation p \<Longrightarrow> \<not> is_space p"
  by (auto simp: is_punctuation_def punctuation_chars_def is_space_def whitespace_chars_def)

lemma dropWhile_keeps_last:
  "xs \<noteq> [] \<Longrightarrow> \<not> P (last xs) \<Longrightarrow> dropWhile P xs \<noteq> [] \<and> last (dropWhile P xs) = last xs"
  by (induction xs) (auto split: if_splits)

lemma classify_lines_filter:
  "classify_lines lns directives code_lines
     = (directives @ filter (\<lambda>s. s \<noteq> [] \<and> startswith s ''#'') (map strip lns),
        code_lines @ filter (\<lambda>s. s \<noteq> [] \<and> \<not> startswith s ''#'') (map strip lns))"
  by (induction lns arbitrary: directives code_lines) (auto simp: Let_def)

lemma strip_ends: "strip l \<noteq> [] \<Longrightarrow> nonspace_ends (strip l)"
proof -
  assume ne: "strip l \<noteq> []"
  let ?x = "dropWhile is_space l"
  have x: "?x \<noteq> []"
  proof
    assume "?x = []"
    then have "strip l = []" by (simp add: strip_def del: dropWhile_eq_Nil_conv)
    then show False using ne by simp
  qed
  then have hx: "\<not> is_space (hd ?x)" by (rule hd_dropWhile)
  obtain c cs where c: "?x = c # cs" using x by (cases ?x) auto
  have nc: "\<not> is_space c" using hx c by simp
  have "rev ?x = rev cs @ [c]" using c by simp
  then have d: "dropWhile is_space (rev ?x) = dropWhile is_space (rev cs) @ [c]"
    using nc by (simp add: dropWhile_append3)
  then have s: "strip l = c # rev (dropWhile is_space (rev cs))"
    by (simp add: strip_def)
  have h: "\<not> is_space (hd (strip l))" using s nc by simp
  let ?y = "dropWhile is_space (rev ?x)"
  have y: "?y \<noteq> []" using d by simp
  have "\<not> is_space (hd ?y)" using y by (rule hd_dropWhile)
  moreover have "last (strip l) = hd ?y" using y by (simp add: strip_def last_rev)
  ultimately show ?thesis using ne h by (simp add: nonspace_ends_def)
qed

lemma strip_of_ends: "nonspace_ends s \<Longrightarrow> strip s = s"
proof -
  assume a: "nonspace_ends s"
  then obtain c cs where c: "s = c # cs" and nc: "\<not> is_space c"
    by (cases s) (auto simp: nonspace_ends_def)
  have d: "dropWhile is_space s = s" using c nc by simp
  have "rev s \<noteq> []" and "\<not> is_space (hd (rev s))"
    using a by (auto simp: nonspace_ends_def hd_rev)
  then have "dropWhile is_space (rev s) = rev s"
    by (cases "rev s") auto
  then show ?thesis using d by (simp add: strip_def)
qed

lemma collapse_whitespace_last:
  "s \<noteq> [] \<Longrightarrow> \<not> is_space (last s) \<Longrightarrow>
     collapse_whitespace s \<noteq> [] \<and> last (collapse_whitespace s) = last s"
proof (induction s rule: collapse_whitespace.induct)
  case 1
  then show ?case by simp
next
  case (2 c cs)
  show ?case
  proof (cases "is_space c")
    case True
    then have cs: "cs \<noteq> []" and l: "\<not> is_space (last cs)"
      using "2.prems" by (auto split: if_splits)
    have "dropWhile is_space cs \<noteq> [] \<and> last (dropWhile is_space cs) = last cs"
      using cs l by (rule dropWhile_keeps_last)
    then show ?thesis using "2.IH"(1) [OF True] True cs l by simp
  next
    case False
    show ?thesis
    proof (cases "cs = []")
      case True
      then show ?thesis using False by simp
    next
      case ne: False
      then show ?thesis using "2.IH"(2) [OF False] False "2.prems" by simp
    qed
  qed
qed

lemma tighten_punctuation_end:
  "dropWhile is_space (c # cs) = [] \<Longrightarrow>
     tighten_punctuation (c # cs) = c # tighten_punctuation cs"
  by (simp del: dropWhile.simps dropWhile_eq_Nil_conv)

lemma tighten_punctuation_match:
  "dropWhile is_space (c # cs) = p # r \<Longrightarrow> is_punctuation p \<Longrightarrow>
     tighten_punctuation (c # cs) = p # tighten_punctuation (dropWhile is_space r)"
  by (simp del: dropWhile.simps)

lemma tighten_punctuation_copy:
  "dropWhile is_space (c # cs) = p # r \<Longrightarrow> \<not> is_punctuation p \<Longrightarrow>
     tighten_punctuation (c # cs) = c # tighten_punctuation cs"
  by (simp del: dropWhile.simps)

lemma tighten_punctuation_hd:
  "\<not> is_space c \<Longrightarrow> \<exists>r. tighten_punctuation (c # cs) = c # r"
  by simp

lemma tighten_punctuation_last:
  "s \<noteq> [] \<Longrightarrow> \<not> is_space (last s) \<Longrightarrow>
     tighten_punctuation s \<noteq> [] \<and> last (tighten_punctuation s) = last s"
proof (induction s rule: tighten_punctuation.induct)
  case 1
  then show ?case by simp
next
  case (2 c cs)
  have dw: "dropWhile is_space (c # cs) \<noteq> []
            \<and> last (dropWhile is_space (c # cs)) = last (c # cs)"
    using "2.prems" by (intro dropWhile_keeps_last) auto
  then obtain p r where pr: "dropWhile is_space (c # cs) = p # r"
    by (cases "dropWhile is_space (c # cs)") auto
  show ?case
  proof (cases "is_punctuation p")
    case True
    show ?thesis
    proof (cases "dropWhile is_space r = []")
      case e: True
      have "set r \<subseteq> Collect is_space"
        using e by (metis dropWhile_eq_Nil_conv mem_Collect_eq subsetI)
      have "r = []"
      proof (rule ccontr)
        assume "r \<noteq> []"
        then have "last r = last (c # cs)" using dw pr by simp
        moreover have "is_space (last r)"
          using \<open>r \<noteq> []\<close> \<open>set r \<subseteq> Collect is_space\<close> last_in_set by blast
        ultimately show False using "2.prems" by simp
      qed
      then have "last (c # cs) = p" using dw pr by simp
      then show ?thesis
        using tighten_punctuation_match [OF pr True] \<open>r = []\<close> by simp
    next
      case ne: False
      then have rne: "r \<noteq> []" by auto
      have lr: "last r = last (c # cs)" using dw pr rne by simp
      have "dropWhile is_space r \<noteq> [] \<and> last (dropWhile is_space r) = last r"
        using rne lr "2.prems" by (intro dropWhile_keeps_last) auto
      then have "tighten_punctuation (dropWhile is_space r) \<noteq> []
                 \<and> last (tighten_punctuation (dropWhile is_space r)) = last (c # cs)"
        using "2.IH"(2) [OF pr True] lr "2.prems" by simp
      then show ?thesis using tighten_punctuation_match [OF pr True] by simp
    qed
  next
    case False
    show ?thesis
    proof (cases "cs = []")
      case True
      then show ?thesis using tighten_punctuation_copy [OF pr False] by simp
    next
      case ne: False
      have "tighten_punctuation cs \<noteq> [] \<and> last (tighten_punctuation cs) = last cs"
        using "2.IH"(3) [OF pr False] ne "2.prems" by simp
      then show ?thesis using tighten_punctuation_copy [OF pr False] ne by simp
    qed
  qed
qed

lemma minify_cpp_line_ends: "nonspace_ends l \<Longrightarrow> nonspace_ends (minify_cpp_line l)"
proof -
  assume a: "nonspace_ends l"
  then obtain c cs where c: "l = c # cs" and nc: "\<not> is_space c"
    by (cases l) (auto simp: nonspace_ends_def)
  have h: "\<exists>r. minify_cpp_line l = c # r"
    using c nc tighten_punctuation_hd [OF nc] by (simp add: minify_cpp_line_def)
  have "collapse_whitespace l \<noteq> [] \<and> last (collapse_whitespace l) = last l"
    using a by (intro collapse_whitespace_last) (auto simp: nonspace_ends_def)
  then have "tighten_punctuation (collapse_whitespace l) \<noteq> []
             \<and> last (tighten_punctuation (collapse_whitespace l)) = last l"
    using a tighten_punctuation_last [of "collapse_whitespace l"] by (simp add: nonspace_ends_def)
  then show ?thesis using h a nc by (auto simp: nonspace_ends_def minify_cpp_line_def)
qed

lemma set_collapse_whitespace:
  "set (collapse_whitespace s) \<subseteq> insert CHR 0x20 {c \<in> set s. \<not> is_space c}"
proof (induction s rule: collapse_whitespace.induct)
  case 1
  show ?case by simp
next
  case (2 c cs)
  show ?case
  proof (cases "is_space c")
    case True
    have "set (dropWhile is_space cs) \<subseteq> set cs" by (auto dest: set_dropWhileD)
    then show ?thesis using "2.IH"(1) [OF True] True by auto
  next
    case False
    then show ?thesis using "2.IH"(2) [OF False] by auto
  qed
qed

lemma set_tighten_punctuation: "set (tighten_punctuation s) \<subseteq> set s"
proof (induction s rule: tighten_punctuation.induct)
  case 1
  show ?case by simp
next
  case (2 c cs)
  show ?case
  proof (cases "dropWhile is_space (c # cs)")
    case Nil
    then show ?thesis using "2.IH"(1) [OF Nil] tighten_punctuation_end [OF Nil]
      by (auto simp del: tighten_punctuation.simps)
  next
    case (Cons p r)
    have sub: "set (p # r) \<subseteq> set (c # cs)"
      using Cons by (metis set_dropWhileD subsetI)
    have sub2: "set (dropWhile is_space r) \<subseteq> set r" by (auto dest: set_dropWhileD)
    show ?thesis
    proof (cases "is_punctuation p")
      case True
      then show ?thesis
        using "2.IH"(2) [OF Cons True] tighten_punctuation_match [OF Cons True] sub sub2
        by (auto simp del: tighten_punctuation.simps dropWhile.simps)
    next
      case False
      then show ?thesis
        using "2.IH"(3) [OF Cons False] tighten_punctuation_copy [OF Cons False]
        by (auto simp del: tighten_punctuation.simps)
    qed
  qed
qed

lemma minify_cpp_line_no_newline: "CHR 0x0A \<notin> set (minify_cpp_line l)"
proof
  assume "CHR 0x0A \<in> set (minify_cpp_line l)"
  then have "CHR 0x0A \<in> set (collapse_whitespace l)"
    using set_tighten_punctuation by (auto simp: minify_cpp_line_def)
  then have "CHR 0x0A = CHR 0x20 \<or> \<not> is_space CHR 0x0A"
    using set_collapse_whitespace [of l] by auto
  then show False using newline_is_space by simp
qed

lemma directives_of_filter:
  "directives_of flat
     = filter (\<lambda>s. s \<noteq> [] \<and> startswith s ''#'') (map strip (splitlines (strip_comments flat)))"
  by (simp add: directives_of_def classify_lines_filter)

lemma code_lines_of_filter:
  "code_lines_of flat
     = filter (\<lambda>s. s \<noteq> [] \<and> \<not> startswith s ''#'') (map strip (splitlines (strip_comments flat)))"
  by (simp add: code_lines_of_def classify_lines_filter)

lemma final_content_parts:
  "final_content style m flat
     = (if code_lines_of flat \<noteq> []
        then join [CHR 0x0A] (directives_of flat) @ [CHR 0x0A]
               @ render_code style m (code_lines_of flat)
        else join [CHR 0x0A] (directives_of flat))"
  by (simp add: final_content_def directives_of_def code_lines_of_def split: prod.splits)

lemma directives_ends: "d \<in> set (directives_of flat) \<Longrightarrow> nonspace_ends d"
  by (auto simp: directives_of_filter intro: strip_ends)

lemma code_lines_ends: "c \<in> set (code_lines_of flat) \<Longrightarrow> nonspace_ends c"
  by (auto simp: code_lines_of_filter intro: strip_ends)

lemma fragments_nonempty:
  "\<forall>x\<in>set (map minify_cpp_line (code_lines_of flat)). x \<noteq> []"
  using code_lines_ends minify_cpp_line_ends by (fastforce simp: nonspace_ends_def)

lemma set_pack_fragments: "g \<in> set (pack_fragments m parts) \<Longrightarrow> set g \<subseteq> set parts"
proof -
  assume a: "g \<in> set (pack_fragments m parts)"
  have "concat (pack_fragments m parts) = parts"
    by (cases parts) (simp_all add: concat_pack)
  then have "set parts = \<Union> (set ` set (pack_fragments m parts))"
    by (metis set_concat)
  then show ?thesis using a by auto
qed

lemma nonspace_ends_append:
  "nonspace_ends a \<Longrightarrow> nonspace_ends b \<Longrightarrow> nonspace_ends (a @ sep @ b)"
  by (auto simp: nonspace_ends_def)

lemma nonspace_ends_join:
  "xs \<noteq> [] \<Longrightarrow> \<forall>x\<in>set xs. nonspace_ends x \<Longrightarrow> nonspace_ends (join sep xs)"
proof (induction sep xs rule: join.induct)
  case (1 sep)
  then show ?case by simp
next
  case (2 sep x)
  then show ?case by simp
next
  case (3 sep x y ys)
  have "nonspace_ends (join sep (y # ys))" using 3 by simp
  moreover have "nonspace_ends x" using "3.prems" by simp
  ultimately show ?case using nonspace_ends_append [of x "join sep (y # ys)" sep] by simp
qed

lemma strip_leading_space: "is_space c \<Longrightarrow> strip (c # s) = strip s"
  by (simp add: strip_def)

lemma render_code_Nil: "render_code style m [] = []"
  by (simp add: render_code_def wrap_code_def)

lemma render_code_ends:
  assumes "code_lines_of flat \<noteq> []"
  shows "nonspace_ends (render_code style m (code_lines_of flat))"
proof -
  let ?C = "code_lines_of flat"
  let ?frags = "map minify_cpp_line ?C"
  have c: "\<forall>x\<in>set ?C. nonspace_ends x" using code_lines_ends by blast
  then have f: "\<forall>x\<in>set ?frags. nonspace_ends x" using minify_cpp_line_ends by simp
  have fne: "?frags \<noteq> []" using assms by simp
  have single: "nonspace_ends (join '' '' ?frags)"
    using fne f by (rule nonspace_ends_join)
  have plain: "nonspace_ends (join [CHR 0x0A] ?C)"
    using assms c by (rule nonspace_ends_join)
  let ?groups = "pack_fragments m ?frags"
  have gne: "?groups \<noteq> []"
    using fne by (cases ?frags) (simp_all add: pack_nonempty)
  have "\<forall>l\<in>set (map (join '' '') ?groups). nonspace_ends l"
  proof
    fix l
    assume "l \<in> set (map (join '' '') ?groups)"
    then obtain g where g: "g \<in> set ?groups" and l: "l = join '' '' g" by auto
    have "g \<noteq> []"
      using g pack_groups_nonempty [of "[hd ?frags]" m "tl ?frags"] fne
      by (cases ?frags) auto
    moreover have "\<forall>x\<in>set g. nonspace_ends x"
      using set_pack_fragments [OF g] f by blast
    ultimately show "nonspace_ends l" unfolding l by (rule nonspace_ends_join)
  qed
  then have "nonspace_ends (join [CHR 0x0A] (map (join '' '') ?groups))"
    using gne by (intro nonspace_ends_join) auto
  then have multi: "nonspace_ends (wrap_code m ?frags)"
    using wrap_code_pack [OF fragments_nonempty, of m flat] by simp
  show ?thesis using single plain multi by (simp add: render_code_def)
qed



text \<open>
  The block written between the markers: stripping \<open>final_content\<close> only takes away the
  \<open>\n\<close> in front of the code when there is no directive.
\<close>

lemma stripped_block:
  "strip (final_content style m flat)
     = join [CHR 0x0A] (directives_of flat)
         @ (if directives_of flat \<noteq> [] \<and> code_lines_of flat \<noteq> [] then [CHR 0x0A] else [])
         @ render_code style m (code_lines_of flat)"
proof -
  let ?D = "directives_of flat" and ?C = "code_lines_of flat"
  have d: "?D \<noteq> [] \<Longrightarrow> nonspace_ends (join [CHR 0x0A] ?D)"
    using directives_ends by (intro nonspace_ends_join) auto
  show ?thesis
  proof (cases "?C = []")
    case cn: True
    show ?thesis
    proof (cases "?D = []")
      case True
      then show ?thesis using cn
        by (simp add: final_content_parts render_code_Nil strip_def)
    next
      case False
      then show ?thesis using cn d
        by (simp add: final_content_parts render_code_Nil strip_of_ends)
    qed
  next
    case cne: False
    have r: "nonspace_ends (render_code style m ?C)"
      using cne by (rule render_code_ends)
    show ?thesis
    proof (cases "?D = []")
      case True
      then show ?thesis using cne r
        by (simp add: final_content_parts strip_leading_space newline_is_space strip_of_ends)
    next
      case False
      have "nonspace_ends (join [CHR 0x0A] ?D @ [CHR 0x0A] @ render_code style m ?C)"
        using d [OF False] r by (rule nonspace_ends_append)
      then show ?thesis using False cne
        by (simp add: final_content_parts strip_of_ends)
    qed
  qed
qed



text \<open>
  C5. In the \<open>multiline\<close> style, for every flattened text and every width (positive or
  not): the code block is the lines of \<open>pack_fragments\<close>, joined by \<open>\n\<close>, each line its
  fragments joined by one space. The lines taken together are the minified fragments in
  order, each fragment whole in one line. No line is empty or contains \<open>\n\<close>, and a line
  either has at most \<open>max_chars\<close> characters or is a single fragment that is longer than
  that.
\<close>

theorem multiline_lines_within_width:
  "render_code ''multiline'' max_chars (code_lines_of flat)
     = join [CHR 0x0A]
         (map (join '' '') (pack_fragments max_chars (map minify_cpp_line (code_lines_of flat))))
   \<and> concat (pack_fragments max_chars (map minify_cpp_line (code_lines_of flat)))
       = map minify_cpp_line (code_lines_of flat)
   \<and> (\<forall>g\<in>set (pack_fragments max_chars (map minify_cpp_line (code_lines_of flat))).
         g \<noteq> [] \<and> CHR 0x0A \<notin> set (join '' '' g)
         \<and> (int (length (join '' '' g)) \<le> max_chars
              \<or> (\<exists>p. g = [p] \<and> max_chars < int (length p))))"
proof (intro conjI ballI)
  let ?frags = "map minify_cpp_line (code_lines_of flat)"
  show "render_code ''multiline'' max_chars (code_lines_of flat)
          = join [CHR 0x0A] (map (join '' '') (pack_fragments max_chars ?frags))"
    using wrap_code_pack [OF fragments_nonempty, of max_chars flat]
    by (simp add: render_code_def)
  show "concat (pack_fragments max_chars ?frags) = ?frags"
    by (cases ?frags) (simp_all add: concat_pack)
  fix g
  assume g: "g \<in> set (pack_fragments max_chars ?frags)"
  obtain p ps where f: "?frags = p # ps"
    using g by (cases ?frags) auto
  then have gp: "g \<in> set (pack max_chars [p] ps)" using g by simp
  show "g \<noteq> []"
    using gp pack_groups_nonempty [of "[p]" max_chars ps] by simp
  show "CHR 0x0A \<notin> set (join '' '' g)"
  proof
    assume "CHR 0x0A \<in> set (join '' '' g)"
    then have "CHR 0x0A \<in> set '' '' \<union> \<Union> (set ` set g)"
      using set_join [of "'' ''" g] by blast
    then obtain x where "x \<in> set g" and "CHR 0x0A \<in> set x" by auto
    then have "x \<in> set ?frags" using set_pack_fragments [OF g] by auto
    then show False using \<open>CHR 0x0A \<in> set x\<close> minify_cpp_line_no_newline by auto
  qed
  show "int (length (join '' '' g)) \<le> max_chars \<or> (\<exists>p. g = [p] \<and> max_chars < int (length p))"
    using gp pack_width [of "[p]" max_chars ps] by blast
qed

theorem multiline_lines_within_width_witness:
  "pack_fragments 10 (map minify_cpp_line (code_lines_of wrap_sample))
     = [[''abc;'', ''defg;''], [''hijklmnopqrs;''], [''t;'', ''u;'']]
   \<and> render_code ''multiline'' 10 (code_lines_of wrap_sample)
       = ''abc; defg;'' @ nl @ ''hijklmnopqrs;'' @ nl @ ''t; u;''"
proof -
  have p: "pack_fragments 10 (map minify_cpp_line (code_lines_of wrap_sample))
             = [[''abc;'', ''defg;''], [''hijklmnopqrs;''], [''t;'', ''u;'']]"
    by code_simp
  have "render_code ''multiline'' 10 (code_lines_of wrap_sample)
          = join [CHR 0x0A]
              (map (join '' '')
                 (pack_fragments 10 (map minify_cpp_line (code_lines_of wrap_sample))))"
    using multiline_lines_within_width [of 10 wrap_sample] by blast
  then show ?thesis
    unfolding p by (simp add: nl_def)
qed

lemma strip_block_comments_id:
  "\<not> has_block_comment t \<Longrightarrow> strip_block_comments t = t"
  by (induction t rule: has_block_comment.induct) auto

lemma strip_line_comments_id:
  "\<not> has_line_comment t \<Longrightarrow> strip_line_comments t = t"
  by (induction t rule: has_line_comment.induct) auto

lemma strip_line_comments_hd:
  "d \<noteq> CHR ''/'' \<Longrightarrow> \<exists>r. strip_line_comments (d # cs) = d # r"
  by (cases cs) auto

lemma no_line_comment_left: "\<not> has_line_comment (strip_line_comments s)"
proof (induction s rule: strip_line_comments.induct)
  case 1
  show ?case by simp
next
  case (2 c)
  show ?case by simp
next
  case (3 c d cs)
  show ?case
  proof (cases "c = CHR ''/'' \<and> d = CHR ''/''")
    case True
    then show ?thesis using "3.IH"(1) by simp
  next
    case False
    have ih: "\<not> has_line_comment (strip_line_comments (d # cs))"
      using "3.IH"(2) False by simp
    show ?thesis
    proof (cases "c = CHR ''/''")
      case True
      then have "d \<noteq> CHR ''/''" using False by simp
      then obtain r where r: "strip_line_comments (d # cs) = d # r"
        using strip_line_comments_hd by blast
      then show ?thesis using ih False \<open>d \<noteq> CHR ''/''\<close> by simp
    next
      case cf: False
      show ?thesis
      proof (cases "strip_line_comments (d # cs)")
        case Nil
        then show ?thesis using False cf by simp
      next
        case (Cons x xs)
        then show ?thesis using ih False cf by simp
      qed
    qed
  qed
qed

text \<open>
  C6, as stated, fails. Removing the block comment \<open>/**/\<close> from \<open>//**/* y */\<close> brings a
  \<open>/\<close> and a \<open>*\<close> together: the result of stripping is \<open>/* y */\<close>, and stripping that
  gives the empty text.
\<close>

theorem strip_comments_not_idempotent:
  "strip_comments ''//**/* y */'' = ''/* y */''
   \<and> strip_comments (strip_comments ''//**/* y */'') = []
   \<and> strip_comments (strip_comments ''//**/* y */'') \<noteq> strip_comments ''//**/* y */''"
  by code_simp

text \<open>
  C6, amended. The stripped text never has a line comment, and stripping it again changes
  nothing whenever it has no block comment.
\<close>

theorem strip_comments_idempotent_without_block:
  "\<not> has_line_comment (strip_comments content)
   \<and> (\<not> has_block_comment (strip_comments content) \<longrightarrow>
        strip_comments (strip_comments content) = strip_comments content)"
proof (intro conjI impI)
  show a: "\<not> has_line_comment (strip_comments content)"
    unfolding strip_comments_def by (rule no_line_comment_left)
  assume b: "\<not> has_block_comment (strip_comments content)"
  have "strip_comments (strip_comments content) = strip_line_comments (strip_comments content)"
    using strip_block_comments_id [OF b] by (simp add: strip_comments_def)
  also have "\<dots> = strip_comments content"
    using a by (rule strip_line_comments_id)
  finally show "strip_comments (strip_comments content) = strip_comments content" .
qed

theorem strip_comments_idempotent_without_block_witness:
  "strip_comments comment_sample = ''int x=1;  '' @ nl @ '' y''
   \<and> \<not> has_line_comment (strip_comments comment_sample)
   \<and> strip_comments (strip_comments comment_sample) = strip_comments comment_sample"
proof -
  have v: "strip_comments comment_sample = ''int x=1;  '' @ nl @ '' y''"
    by code_simp
  have b: "\<not> has_block_comment (strip_comments comment_sample)"
    by code_simp
  show ?thesis
    using strip_comments_idempotent_without_block [of comment_sample] v b by blast
qed

lemma tok_dropWhile: "tok solo [] (dropWhile is_space s) = tok solo [] s"
  by (induction s) (simp_all add: flush_def)

lemma tok_append_space:
  "is_space c \<Longrightarrow> tok solo cur (a @ c # b) = tok solo cur a @ tok solo [] b"
  by (induction a arbitrary: cur) simp_all

lemma tok_join:
  "is_space c \<Longrightarrow> tok solo [] (join [c] xs) = concat (map (tok solo []) xs)"
proof (induction "[c]" xs rule: join.induct)
  case 1
  show ?case by (simp add: flush_def)
next
  case (2 x)
  show ?case by simp
next
  case (3 x y ys)
  have "tok solo [] (x @ c # join [c] (y # ys)) = tok solo [] x @ tok solo [] (join [c] (y # ys))"
    using "3.prems" by (rule tok_append_space)
  then show ?case using 3 by simp
qed

lemma tok_collapse_whitespace:
  "tok solo cur (collapse_whitespace s) = tok solo cur s"
proof (induction s arbitrary: cur rule: collapse_whitespace.induct)
  case 1
  show ?case by simp
next
  case (2 c cs)
  show ?case
  proof (cases "is_space c")
    case True
    have "tok solo cur (collapse_whitespace (c # cs))
            = flush cur @ tok solo [] (collapse_whitespace (dropWhile is_space cs))"
      using True space_is_space by simp
    also have "\<dots> = flush cur @ tok solo [] (dropWhile is_space cs)"
      using "2.IH"(1) [OF True] by simp
    also have "\<dots> = flush cur @ tok solo [] cs"
      by (simp only: tok_dropWhile)
    finally show ?thesis using True by simp
  next
    case False
    then show ?thesis using "2.IH"(2) [OF False] by simp
  qed
qed

lemma tok_tighten_punctuation:
  "tok is_punctuation cur (tighten_punctuation s) = tok is_punctuation cur s"
proof (induction s arbitrary: cur rule: tighten_punctuation.induct)
  case 1
  show ?case by simp
next
  case (2 c cs)
  show ?case
  proof (cases "dropWhile is_space (c # cs)")
    case Nil
    have "tighten_punctuation (c # cs) = c # tighten_punctuation cs"
      using Nil by (rule tighten_punctuation_end)
    then show ?thesis using "2.IH"(1) [OF Nil] by (simp del: tighten_punctuation.simps)
  next
    case (Cons p r)
    show ?thesis
    proof (cases "is_punctuation p")
      case True
      have np: "\<not> is_space p" using True by (rule punctuation_not_space)
      have t: "tighten_punctuation (c # cs) = p # tighten_punctuation (dropWhile is_space r)"
        using Cons True by (rule tighten_punctuation_match)
      have "tok is_punctuation cur (tighten_punctuation (c # cs))
              = flush cur @ [p] # tok is_punctuation [] (tighten_punctuation (dropWhile is_space r))"
        using t np True by (simp del: tighten_punctuation.simps)
      also have "\<dots> = flush cur @ [p] # tok is_punctuation [] (dropWhile is_space r)"
        using "2.IH"(2) [OF Cons True] by simp
      also have "\<dots> = flush cur @ [p] # tok is_punctuation [] r"
        by (simp only: tok_dropWhile)
      finally have lhs: "tok is_punctuation cur (tighten_punctuation (c # cs))
                           = flush cur @ [p] # tok is_punctuation [] r" .
      have "tok is_punctuation cur (c # cs) = flush cur @ [p] # tok is_punctuation [] r"
      proof (cases "is_space c")
        case sp: True
        have "tok is_punctuation cur (c # cs) = flush cur @ tok is_punctuation [] cs"
          using sp by simp
        also have "tok is_punctuation [] cs = tok is_punctuation [] (dropWhile is_space cs)"
          by (simp only: tok_dropWhile)
        also have "dropWhile is_space cs = p # r" using Cons sp by simp
        finally show ?thesis using np True by (simp add: flush_def)
      next
        case nsp: False
        then have "c = p" and "cs = r" using Cons by simp_all
        then show ?thesis using np True by simp
      qed
      then show ?thesis using lhs by simp
    next
      case False
      have "tighten_punctuation (c # cs) = c # tighten_punctuation cs"
        using Cons False by (rule tighten_punctuation_copy)
      then show ?thesis using "2.IH"(3) [OF Cons False] by (simp del: tighten_punctuation.simps)
    qed
  qed
qed

lemma tighten_punctuation_plain:
  "\<forall>c\<in>set s. \<not> is_punctuation c \<Longrightarrow> tighten_punctuation s = s"
proof (induction s rule: tighten_punctuation.induct)
  case 1
  show ?case by simp
next
  case (2 c cs)
  have rest: "\<forall>x\<in>set cs. \<not> is_punctuation x" using "2.prems" by simp
  show ?case
  proof (cases "dropWhile is_space (c # cs)")
    case Nil
    have "tighten_punctuation (c # cs) = c # tighten_punctuation cs"
      using Nil by (rule tighten_punctuation_end)
    then show ?thesis using "2.IH"(1) [OF Nil rest] by simp
  next
    case (Cons p r)
    have "p \<in> set (c # cs)"
      using Cons by (metis list.set_intros(1) set_dropWhileD)
    then have np: "\<not> is_punctuation p" using "2.prems" by blast
    have "tighten_punctuation (c # cs) = c # tighten_punctuation cs"
      using Cons np by (rule tighten_punctuation_copy)
    then show ?thesis using "2.IH"(3) [OF Cons np rest] by simp
  qed
qed

lemma code_tokens_minify: "tok is_punctuation [] (minify_cpp_line l) = tok is_punctuation [] l"
  by (simp add: minify_cpp_line_def tok_tighten_punctuation tok_collapse_whitespace)

lemma tokens_minify:
  assumes "\<forall>c\<in>set l. \<not> is_punctuation c"
  shows "tok solo [] (minify_cpp_line l) = tok solo [] l"
proof -
  have "\<not> is_punctuation CHR 0x20"
    using punctuation_not_space space_is_space by blast
  then have "\<forall>c\<in>set (collapse_whitespace l). \<not> is_punctuation c"
    using assms set_collapse_whitespace [of l] by auto
  then have "minify_cpp_line l = collapse_whitespace l"
    by (simp add: minify_cpp_line_def tighten_punctuation_plain)
  then show ?thesis by (simp add: tok_collapse_whitespace)
qed

text \<open>
  The tokens of a block are those of its directives followed by those of its code, for
  every notion of token, when the code is rendered so that its tokens are those of the
  code lines.
\<close>

lemma tok_block:
  assumes "tok solo [] (render_code style m (code_lines_of flat))
             = concat (map (tok solo []) (code_lines_of flat))"
  shows "tok solo [] (strip (final_content style m flat))
           = concat (map (tok solo []) (directives_of flat))
               @ concat (map (tok solo []) (code_lines_of flat))"
proof -
  let ?D = "directives_of flat" and ?C = "code_lines_of flat"
  have d: "tok solo [] (join [CHR 0x0A] ?D) = concat (map (tok solo []) ?D)"
    using newline_is_space by (rule tok_join)
  show ?thesis
  proof (cases "?D \<noteq> [] \<and> ?C \<noteq> []")
    case True
    have "tok solo [] (join [CHR 0x0A] ?D @ CHR 0x0A # render_code style m ?C)
            = tok solo [] (join [CHR 0x0A] ?D) @ tok solo [] (render_code style m ?C)"
      using newline_is_space by (rule tok_append_space)
    then show ?thesis using True d assms by (simp add: stripped_block)
  next
    case False
    show ?thesis
    proof (cases "?C = []")
      case True
      then show ?thesis using d by (simp add: stripped_block render_code_Nil)
    next
      case cne: False
      then have "?D = []" using False by simp
      then show ?thesis using assms by (simp add: stripped_block)
    qed
  qed
qed

lemma render_none_tokens:
  "tok solo [] (render_code ''none'' m C) = concat (map (tok solo []) C)"
  using tok_join [OF newline_is_space, of solo C] by (simp add: render_code_def)

text \<open>
  C7, as stated, fails when a token is a maximal run of characters that are not
  whitespace: minification removes the whitespace around \<open>;\<close>, so the three tokens of
  \<open>a ; b\<close> in the \<open>none\<close> style are the one token \<open>a;b\<close> in the \<open>single_line\<close> style.
\<close>

theorem single_line_merges_tokens:
  "strip (final_content ''none'' 120 ''a ; b'') = ''a ; b''
   \<and> strip (final_content ''single_line'' 120 ''a ; b'') = ''a;b''
   \<and> tokens (strip (final_content ''single_line'' 120 ''a ; b''))
       \<noteq> tokens (strip (final_content ''none'' 120 ''a ; b''))"
  by code_simp

text \<open>
  C7, amended. For every flattened text, the block of the \<open>single_line\<close> style and the
  block of the \<open>none\<close> style have the same sequence of tokens when each of the characters
  \<open>; { } ( ) , < > = [ ]\<close> counts as a token of its own and the rest is split at
  whitespace. When no code line has one of these characters, the two blocks have the same
  sequence of tokens in the sense of the claim, the maximal runs of characters that are not
  whitespace.
\<close>

theorem single_line_keeps_tokens:
  "code_tokens (strip (final_content ''single_line'' m flat))
     = code_tokens (strip (final_content ''none'' m' flat))
   \<and> ((\<forall>c\<in>set (code_lines_of flat). \<forall>x\<in>set c. \<not> is_punctuation x) \<longrightarrow>
        tokens (strip (final_content ''single_line'' m flat))
          = tokens (strip (final_content ''none'' m' flat)))"
proof (intro conjI impI)
  let ?C = "code_lines_of flat"
  have "tok is_punctuation [] (render_code ''single_line'' m ?C)
          = concat (map (tok is_punctuation []) (map minify_cpp_line ?C))"
    using tok_join [OF space_is_space, of is_punctuation "map minify_cpp_line ?C"]
    by (simp add: render_code_def)
  also have "\<dots> = concat (map (tok is_punctuation []) ?C)"
    by (simp add: comp_def code_tokens_minify)
  finally have "tok is_punctuation [] (strip (final_content ''single_line'' m flat))
          = concat (map (tok is_punctuation []) (directives_of flat))
              @ concat (map (tok is_punctuation []) ?C)"
    by (rule tok_block)
  moreover have "tok is_punctuation [] (strip (final_content ''none'' m' flat))
          = concat (map (tok is_punctuation []) (directives_of flat))
              @ concat (map (tok is_punctuation []) ?C)"
    using render_none_tokens by (rule tok_block)
  ultimately show "code_tokens (strip (final_content ''single_line'' m flat))
                     = code_tokens (strip (final_content ''none'' m' flat))"
    by (simp add: code_tokens_def)
next
  let ?C = "code_lines_of flat"
  let ?w = "\<lambda>c::char. False"
  assume plain: "\<forall>c\<in>set ?C. \<forall>x\<in>set c. \<not> is_punctuation x"
  have "tok ?w [] (render_code ''single_line'' m ?C)
          = concat (map (tok ?w []) (map minify_cpp_line ?C))"
    using tok_join [OF space_is_space, of ?w "map minify_cpp_line ?C"]
    by (simp add: render_code_def)
  also have "\<dots> = concat (map (tok ?w []) ?C)"
    using plain by (simp add: comp_def tokens_minify cong: map_cong)
  finally have "tok ?w [] (strip (final_content ''single_line'' m flat))
          = concat (map (tok ?w []) (directives_of flat)) @ concat (map (tok ?w []) ?C)"
    by (rule tok_block)
  moreover have "tok ?w [] (strip (final_content ''none'' m' flat))
          = concat (map (tok ?w []) (directives_of flat)) @ concat (map (tok ?w []) ?C)"
    using render_none_tokens by (rule tok_block)
  ultimately show "tokens (strip (final_content ''single_line'' m flat))
                     = tokens (strip (final_content ''none'' m' flat))"
    by (simp add: tokens_def)
qed

theorem single_line_keeps_tokens_witness:
  "code_tokens (strip (final_content ''single_line'' 120 ''a ; b'')) = [''a'', '';'', ''b'']
   \<and> code_tokens (strip (final_content ''none'' 120 ''a ; b'')) = [''a'', '';'', ''b'']
   \<and> tokens (strip (final_content ''single_line'' 120 token_sample))
       = [''#define'', ''N'', ''3'', ''unsigned'', ''int'', ''x'', ''long'', ''long'', ''y'']
   \<and> tokens (strip (final_content ''none'' 120 token_sample))
       = [''#define'', ''N'', ''3'', ''unsigned'', ''int'', ''x'', ''long'', ''long'', ''y'']"
proof -
  have a: "code_tokens (strip (final_content ''none'' 120 ''a ; b'')) = [''a'', '';'', ''b'']"
    by code_simp
  have b: "tokens (strip (final_content ''none'' 120 token_sample))
       = [''#define'', ''N'', ''3'', ''unsigned'', ''int'', ''x'', ''long'', ''long'', ''y'']"
    by code_simp
  have p: "\<forall>c\<in>set (code_lines_of token_sample). \<forall>x\<in>set c. \<not> is_punctuation x"
    by code_simp
  have "code_tokens (strip (final_content ''single_line'' 120 ''a ; b'')) = [''a'', '';'', ''b'']"
    using single_line_keeps_tokens [of 120 "''a ; b''" 120] a by simp
  moreover have "tokens (strip (final_content ''single_line'' 120 token_sample))
       = [''#define'', ''N'', ''3'', ''unsigned'', ''int'', ''x'', ''long'', ''long'', ''y'']"
    using single_line_keeps_tokens [of 120 token_sample 120] p b by simp
  ultimately show ?thesis using a b by simp
qed

end
